theory Spec2Isabelle
  imports Main "HOL-Library.Multiset" "HOL-Library.Finite_Map"
begin

section \<open>The JSON token stream read by the decoder\<close>

text \<open>
  The program in \<^verbatim>\<open>config_decoder/snapshot.go\<close> drives a \<^verbatim>\<open>json.Decoder\<close> of Go's
  \<^verbatim>\<open>encoding/json\<close> over an \<^verbatim>\<open>io.Reader\<close>.  The byte source is modelled after lexing: the
  input is the list of JSON lexemes the bytes spell (white space dropped, string escapes
  resolved).  \<open>LBad\<close> stands for a byte that starts no JSON lexeme.  A number lexeme
  carries its literal; literals are taken to lie in the range of \<^verbatim>\<open>float64\<close>.
\<close>

datatype lexeme =
    LBrace | RBrace | LBrack | RBrack | Colon | Comma
  | LStr string | LNum string | LTrue | LFalse | LNull | LBad

text \<open>
  The values of Go's \<^verbatim>\<open>interface{}\<close> that occur in the program: what \<^verbatim>\<open>encoding/json\<close>
  decodes into an \<^verbatim>\<open>any\<close> (\<^verbatim>\<open>nil\<close>, \<^verbatim>\<open>bool\<close>, \<^verbatim>\<open>float64\<close>, \<^verbatim>\<open>string\<close>, \<^verbatim>\<open>[]any\<close>,
  \<^verbatim>\<open>map[string]any\<close>), and the \<^verbatim>\<open>map[string]string\<close> that \<^verbatim>\<open>addMetadata\<close> creates.
\<close>

datatype gval =
    VNil
  | VBool bool
  | VNum string
  | VStr string
  | VArr "gval list"
  | VMap "(string, gval) fmap"
  | VStrMap "(string, string) fmap"

type_synonym gomap = "(string, gval) fmap"

text \<open>\<^verbatim>\<open>json.Token\<close>: a \<^verbatim>\<open>json.Delim\<close> (one of the four brackets) or a decoded scalar.\<close>

datatype token = Delim char | TVal gval

text \<open>The errors of \<^verbatim>\<open>encoding/json\<close> and \<^verbatim>\<open>io\<close> that the decoder returns.\<close>

datatype jerror = SyntaxError | EOF | ErrUnexpectedEOF | UnmarshalTypeError

datatype tstate =
    tokenTopValue | tokenArrayStart | tokenArrayValue | tokenArrayComma
  | tokenObjectStart | tokenObjectKey | tokenObjectColon | tokenObjectValue
  | tokenObjectComma

text \<open>
  \<^verbatim>\<open>json.Decoder\<close>: \<open>buf\<close> is the input not yet consumed, \<open>err\<close> the sticky error of
  \<^verbatim>\<open>readValue\<close>, \<open>tokenState\<close> and \<open>tokenStack\<close> the state of the token API (the head of
  the list is the top of the stack).
\<close>

record Decoder =
  buf :: "lexeme list"
  err :: "jerror option"
  tokenState :: tstate
  tokenStack :: "tstate list"

definition NewDecoder :: "lexeme list \<Rightarrow> Decoder" where
  "NewDecoder r = \<lparr>buf = r, err = None, tokenState = tokenTopValue, tokenStack = []\<rparr>"

subsection \<open>The scanner: reading one complete value\<close>

text \<open>
  \<^verbatim>\<open>readValue\<close> runs the scanner of \<^verbatim>\<open>encoding/json\<close> over the input until one value is
  complete; \<^verbatim>\<open>unmarshal\<close> then builds the Go value.  Both are one push-down automaton
  here: a frame per open array or object holds what was decoded so far, and the phase
  is the scanner's step function.
\<close>

datatype frame =
    InArr "gval list"
  | InObj gomap
  | InKey gomap string

datatype phase = BeginValue | BeginValueOrEmpty | BeginStringOrEmpty | BeginString | EndValue

datatype stepres = StErr jerror | StDone gval | StCont phase "frame list"

fun deliver :: "gval \<Rightarrow> frame list \<Rightarrow> stepres" where
  "deliver v [] = StDone v"
| "deliver v (InArr acc # stk) = StCont EndValue (InArr (v # acc) # stk)"
| "deliver v (InKey m k # stk) = StCont EndValue (InObj (fmupd k v m) # stk)"
| "deliver v (InObj m # stk) = StErr SyntaxError"

fun scalar :: "lexeme \<Rightarrow> gval option" where
  "scalar (LStr s) = Some (VStr s)"
| "scalar (LNum n) = Some (VNum n)"
| "scalar LTrue = Some (VBool True)"
| "scalar LFalse = Some (VBool False)"
| "scalar LNull = Some VNil"
| "scalar _ = None"

definition beginValue :: "frame list \<Rightarrow> lexeme \<Rightarrow> stepres" where
  "beginValue stk l =
     (if l = LBrack then StCont BeginValueOrEmpty (InArr [] # stk)
      else if l = LBrace then StCont BeginStringOrEmpty (InObj fmempty # stk)
      else case scalar l of Some v \<Rightarrow> deliver v stk | None \<Rightarrow> StErr SyntaxError)"

definition beginString :: "frame list \<Rightarrow> lexeme \<Rightarrow> stepres" where
  "beginString stk l =
     (case (l, stk) of
        (LStr k, InObj m # rest) \<Rightarrow> StCont EndValue (InKey m k # rest)
      | _ \<Rightarrow> StErr SyntaxError)"

definition endValue :: "frame list \<Rightarrow> lexeme \<Rightarrow> stepres" where
  "endValue stk l =
     (case stk of
        InKey m k # rest \<Rightarrow> if l = Colon then StCont BeginValue stk else StErr SyntaxError
      | InObj m # rest \<Rightarrow>
          if l = Comma then StCont BeginString stk
          else if l = RBrace then deliver (VMap m) rest
          else StErr SyntaxError
      | InArr acc # rest \<Rightarrow>
          if l = Comma then StCont BeginValue stk
          else if l = RBrack then deliver (VArr (rev acc)) rest
          else StErr SyntaxError
      | [] \<Rightarrow> StErr SyntaxError)"

fun step :: "phase \<Rightarrow> frame list \<Rightarrow> lexeme \<Rightarrow> stepres" where
  "step BeginValue stk l = beginValue stk l"
| "step BeginValueOrEmpty stk l = (if l = RBrack then endValue stk l else beginValue stk l)"
| "step BeginStringOrEmpty stk l = (if l = RBrace then endValue stk l else beginString stk l)"
| "step BeginString stk l = beginString stk l"
| "step EndValue stk l = endValue stk l"

fun scan :: "phase \<Rightarrow> frame list \<Rightarrow> lexeme list \<Rightarrow> jerror + gval \<times> lexeme list" where
  "scan ph stk [] = Inl ErrUnexpectedEOF"
| "scan ph stk (l # ls) =
     (case step ph stk l of
        StErr e \<Rightarrow> Inl e
      | StDone v \<Rightarrow> Inr (v, ls)
      | StCont ph' stk' \<Rightarrow> scan ph' stk' ls)"

subsection \<open>The token API of \<^verbatim>\<open>json.Decoder\<close>\<close>

definition peek :: "Decoder \<Rightarrow> jerror + lexeme" where
  "peek d = (case buf d of [] \<Rightarrow> Inl EOF | c # cs \<Rightarrow> Inr c)"

definition More :: "Decoder \<Rightarrow> bool" where
  "More d = (case peek d of Inl e \<Rightarrow> False | Inr c \<Rightarrow> c \<noteq> RBrack \<and> c \<noteq> RBrace)"

definition tokenValueAllowed :: "Decoder \<Rightarrow> bool" where
  "tokenValueAllowed d =
     (tokenState d = tokenTopValue \<or> tokenState d = tokenArrayStart
      \<or> tokenState d = tokenArrayValue \<or> tokenState d = tokenObjectValue)"

definition tokenValueEnd :: "Decoder \<Rightarrow> Decoder" where
  "tokenValueEnd d =
     (if tokenState d = tokenArrayStart \<or> tokenState d = tokenArrayValue
      then d\<lparr>tokenState := tokenArrayComma\<rparr>
      else if tokenState d = tokenObjectValue then d\<lparr>tokenState := tokenObjectComma\<rparr>
      else d)"

definition tokenPrepareForDecode :: "Decoder \<Rightarrow> jerror option \<times> Decoder" where
  "tokenPrepareForDecode d =
     (if tokenState d = tokenArrayComma then
        (case buf d of
           [] \<Rightarrow> (Some EOF, d)
         | c # cs \<Rightarrow>
             if c \<noteq> Comma then (Some SyntaxError, d)
             else (None, d\<lparr>buf := cs, tokenState := tokenArrayValue\<rparr>))
      else if tokenState d = tokenObjectColon then
        (case buf d of
           [] \<Rightarrow> (Some EOF, d)
         | c # cs \<Rightarrow>
             if c \<noteq> Colon then (Some SyntaxError, d)
             else (None, d\<lparr>buf := cs, tokenState := tokenObjectValue\<rparr>))
      else (None, d))"

text \<open>
  \<^verbatim>\<open>Decode\<close> up to the store into its target: the sticky error, the separator before the
  value, one complete value read by the scanner, the token state moved past the value.
\<close>

definition Decode_value :: "Decoder \<Rightarrow> (jerror + gval) \<times> Decoder" where
  "Decode_value d =
     (case err d of
        Some e \<Rightarrow> (Inl e, d)
      | None \<Rightarrow>
         (case tokenPrepareForDecode d of
            (Some e, d1) \<Rightarrow> (Inl e, d1)
          | (None, d1) \<Rightarrow>
              if \<not> tokenValueAllowed d1 then (Inl SyntaxError, d1)
              else (case buf d1 of
                      [] \<Rightarrow> (Inl EOF, d1\<lparr>err := Some EOF\<rparr>)
                    | c # cs \<Rightarrow>
                       (case scan BeginValue [] (buf d1) of
                          Inl e \<Rightarrow> (Inl e, d1\<lparr>err := Some e\<rparr>)
                        | Inr (v, rest) \<Rightarrow> (Inr v, tokenValueEnd (d1\<lparr>buf := rest\<rparr>))))))"

text \<open>
  \<^verbatim>\<open>dec.Decode(&v)\<close> for \<^verbatim>\<open>var v map[string]any\<close>: the result pairs the returned error
  with \<open>v\<close> after the call, \<open>None\<close> for the nil map.  A JSON object fills a fresh map; JSON
  \<^verbatim>\<open>null\<close> leaves the map nil without an error; any other value is an
  \<^verbatim>\<open>UnmarshalTypeError\<close> and leaves the map nil; an error before or while reading the
  value leaves it nil as well.
\<close>

definition Decode_map :: "Decoder \<Rightarrow> (jerror option \<times> gomap option) \<times> Decoder" where
  "Decode_map d =
     (case Decode_value d of
        (Inl e, d1) \<Rightarrow> ((Some e, None), d1)
      | (Inr v, d1) \<Rightarrow>
          (case v of
             VMap m \<Rightarrow> ((None, Some m), d1)
           | VNil \<Rightarrow> ((None, None), d1)
           | _ \<Rightarrow> ((Some UnmarshalTypeError, None), d1)))"

definition tokenError :: "Decoder \<Rightarrow> (jerror + token) \<times> Decoder" where
  "tokenError d = (Inl SyntaxError, d)"

text \<open>
  \<^verbatim>\<open>Token\<close>: brackets are returned as \<^verbatim>\<open>Delim\<close> and move the token state; a colon or a
  comma in its place is consumed and the loop goes on; a string in key position is the
  key; anything else must stand where a value is allowed and is decoded as a scalar.
\<close>

definition Token_value :: "Decoder \<Rightarrow> (jerror + token) \<times> Decoder" where
  "Token_value d =
     (if \<not> tokenValueAllowed d then tokenError d
      else (case Decode_value d of
              (Inl e, d1) \<Rightarrow> (Inl e, d1)
            | (Inr x, d1) \<Rightarrow> (Inr (TVal x), d1)))"

function Token :: "Decoder \<Rightarrow> (jerror + token) \<times> Decoder" where
  "Token d =
     (case buf d of
        [] \<Rightarrow> (Inl EOF, d)
      | c # cs \<Rightarrow>
         (case c of
            LBrack \<Rightarrow>
              if \<not> tokenValueAllowed d then tokenError d
              else (Inr (Delim CHR ''[''),
                    d\<lparr>buf := cs, tokenStack := tokenState d # tokenStack d,
                      tokenState := tokenArrayStart\<rparr>)
          | RBrack \<Rightarrow>
              if tokenState d \<noteq> tokenArrayStart \<and> tokenState d \<noteq> tokenArrayComma
              then tokenError d
              else (case tokenStack d of
                      [] \<Rightarrow> tokenError d
                    | s # ss \<Rightarrow>
                        (Inr (Delim CHR '']''),
                         tokenValueEnd (d\<lparr>buf := cs, tokenState := s, tokenStack := ss\<rparr>)))
          | LBrace \<Rightarrow>
              if \<not> tokenValueAllowed d then tokenError d
              else (Inr (Delim CHR ''{''),
                    d\<lparr>buf := cs, tokenStack := tokenState d # tokenStack d,
                      tokenState := tokenObjectStart\<rparr>)
          | RBrace \<Rightarrow>
              if tokenState d \<noteq> tokenObjectStart \<and> tokenState d \<noteq> tokenObjectComma
              then tokenError d
              else (case tokenStack d of
                      [] \<Rightarrow> tokenError d
                    | s # ss \<Rightarrow>
                        (Inr (Delim CHR ''}''),
                         tokenValueEnd (d\<lparr>buf := cs, tokenState := s, tokenStack := ss\<rparr>)))
          | Colon \<Rightarrow>
              if tokenState d \<noteq> tokenObjectColon then tokenError d
              else Token (d\<lparr>buf := cs, tokenState := tokenObjectValue\<rparr>)
          | Comma \<Rightarrow>
              if tokenState d = tokenArrayComma
              then Token (d\<lparr>buf := cs, tokenState := tokenArrayValue\<rparr>)
              else if tokenState d = tokenObjectComma
              then Token (d\<lparr>buf := cs, tokenState := tokenObjectKey\<rparr>)
              else tokenError d
          | LStr s \<Rightarrow>
              if tokenState d = tokenObjectStart \<or> tokenState d = tokenObjectKey then
                (case err d of
                   Some e \<Rightarrow> (Inl e, d)
                 | None \<Rightarrow>
                     (Inr (TVal (VStr s)), d\<lparr>buf := cs, tokenState := tokenObjectColon\<rparr>))
              else Token_value d
          | _ \<Rightarrow> Token_value d))"
  by pat_completeness auto
termination
  by (relation "measure (\<lambda>d. length (buf d))") auto

declare Token.simps [simp del]

lemma scan_shorter: "scan ph stk ls = Inr (v, rest) \<Longrightarrow> length rest < length ls"
proof (induction ls arbitrary: ph stk)
  case Nil
  then show ?case by simp
next
  case (Cons l ls)
  show ?case
  proof (cases "step ph stk l")
    case (StErr e)
    with Cons.prems show ?thesis by simp
  next
    case (StDone x)
    with Cons.prems show ?thesis by simp
  next
    case (StCont ph' stk')
    with Cons.prems have "scan ph' stk' ls = Inr (v, rest)" by simp
    from Cons.IH [OF this] show ?thesis by simp
  qed
qed

lemma Decode_value_shorter:
  "Decode_value d = (Inr v, d') \<Longrightarrow> length (buf d') < length (buf d)"
  by (auto simp: Decode_value_def tokenPrepareForDecode_def tokenValueEnd_def
      simp del: scan.simps
      split: option.splits if_splits list.splits sum.splits prod.splits
      dest!: scan_shorter)

lemma Token_shorter: "Token d = (Inr t, d') \<Longrightarrow> length (buf d') < length (buf d)"
proof (induction "length (buf d)" arbitrary: d t d' rule: less_induct)
  case less
  have IH: "length (buf e) < length (buf d) \<Longrightarrow> Token e = (Inr t, e')
            \<Longrightarrow> length (buf e') < length (buf d)" for e t e'
    using less.hyps by fastforce
  show ?case
  proof (cases "buf d")
    case Nil
    with less.prems show ?thesis by (simp add: Token.simps [of d])
  next
    case (Cons c cs)
    have rec: "Token e = (Inr t, d') \<Longrightarrow> buf e = cs
               \<Longrightarrow> length (buf d') < Suc (length cs)" for e
      using IH [of e t d'] Cons by simp
    from less.prems Cons show ?thesis
      apply (subst (asm) Token.simps)
      apply (cases c)
      apply (auto simp: tokenError_def tokenValueEnd_def Token_value_def
        split: list.splits if_splits option.splits sum.splits prod.splits
        dest!: Decode_value_shorter dest: rec)
      done
  qed
qed

section \<open>The program: \<^verbatim>\<open>config_decoder/snapshot.go\<close>\<close>

text \<open>
  Go's \<^verbatim>\<open>error\<close> values of the program.  \<open>Wrap p e\<close> is \<^verbatim>\<open>fmt.Errorf(p + ": %w", e)\<close>;
  \<open>GotWant\<close> is the mismatch of \<^verbatim>\<open>expect\<close>; \<open>NotAString\<close> the error of \<^verbatim>\<open>addMetadata\<close>;
  \<open>DelimValue\<close> and \<open>FieldToken\<close> the two errors of a captured field in
  \<^verbatim>\<open>DecodeAndSplitItems\<close>.
\<close>

datatype error =
    Json jerror
  | Wrap string error
  | GotWant token token
  | NotAString token
  | DelimValue string token
  | FieldToken string error

record ItemTransformSpec =
  Fields :: "(string, string) fmap"
  ItemsField :: string

text \<open>\<^verbatim>\<open>expect\<close>: an error unless the next token is \<open>expectedT\<close>.\<close>

definition expect :: "Decoder \<Rightarrow> token \<Rightarrow> error option \<times> Decoder" where
  "expect d expectedT =
     (case Token d of
        (Inl e, d1) \<Rightarrow> (Some (Wrap ''expect'' (Json e)), d1)
      | (Inr t, d1) \<Rightarrow>
          if t \<noteq> expectedT then (Some (GotWant t expectedT), d1) else (None, d1))"

text \<open>
  \<^verbatim>\<open>skip\<close>: reads tokens, counting open brackets up and closing brackets down, until
  the count is back at zero.  The count is Go's \<^verbatim>\<open>int\<close>; it stays far from the ends of
  its range, so it is an integer here.
\<close>

function skip_loop :: "int \<Rightarrow> Decoder \<Rightarrow> error option \<times> Decoder" where
  "skip_loop n d =
     (case Token d of
        (Inl e, d1) \<Rightarrow> (Some (Wrap ''skip'' (Json e)), d1)
      | (Inr t, d1) \<Rightarrow>
          (let n1 = (if t = Delim CHR ''['' \<or> t = Delim CHR ''{'' then n + 1
                     else if t = Delim CHR '']'' \<or> t = Delim CHR ''}'' then n - 1
                     else n)
           in if n1 = 0 then (None, d1) else skip_loop n1 d1))"
  by pat_completeness auto
termination
  by (relation "measure (\<lambda>(n, d). length (buf d))") (auto dest: Token_shorter [OF sym])

declare skip_loop.simps [simp del]

definition skip :: "Decoder \<Rightarrow> error option \<times> Decoder" where
  "skip d = skip_loop 0 d"

lemma skip_loop_shorter:
  "skip_loop n d = (None, d') \<Longrightarrow> length (buf d') < length (buf d)"
proof (induction n d rule: skip_loop.induct)
  case (1 n d)
  show ?case
  proof (cases "Token d")
    case (Pair r d1)
    show ?thesis
    proof (cases r)
      case (Inl e)
      with Pair "1.prems" show ?thesis by (simp add: skip_loop.simps [of n d])
    next
      case (Inr t)
      with Pair have lt: "length (buf d1) < length (buf d)" by (auto dest: Token_shorter)
      define n1 where "n1 = (if t = Delim CHR ''['' \<or> t = Delim CHR ''{'' then n + 1
                     else if t = Delim CHR '']'' \<or> t = Delim CHR ''}'' then n - 1
                     else n)"
      show ?thesis
      proof (cases "n1 = 0")
        case True
        with Pair Inr "1.prems" lt show ?thesis
          by (simp add: skip_loop.simps [of n d] n1_def Let_def)
      next
        case False
        with Pair Inr "1.prems" have "skip_loop n1 d1 = (None, d')"
          by (simp add: skip_loop.simps [of n d] n1_def Let_def)
        with "1.IH" [OF Pair [symmetric] Inr n1_def False] lt show ?thesis by simp
      qed
    qed
  qed
qed

text \<open>
  \<^verbatim>\<open>addMetadata\<close>: the captured value goes into the \<^verbatim>\<open>map[string]string\<close> stored under
  \<^verbatim>\<open>metadata["config_snapshot"]\<close>, which is created first when it is missing (also when
  the value then turns out not to be a string).  \<open>AddPanic\<close> is the failed type assertion
  \<^verbatim>\<open>skMap.(map[string]string)\<close>.
\<close>

definition snapshotKey :: string where
  "snapshotKey = ''config_snapshot''"

datatype addres = AddOk gomap | AddErr error gomap | AddPanic

definition addMetadata :: "gomap \<Rightarrow> string \<Rightarrow> token \<Rightarrow> addres" where
  "addMetadata metadata key val =
     (let metadata1 = (if fmlookup metadata snapshotKey = None
                       then fmupd snapshotKey (VStrMap fmempty) metadata else metadata)
      in case val of
           TVal (VStr s) \<Rightarrow>
             (case fmlookup metadata1 snapshotKey of
                Some (VStrMap skMap) \<Rightarrow>
                  AddOk (fmupd snapshotKey (VStrMap (fmupd key s skMap)) metadata1)
              | _ \<Rightarrow> AddPanic)
         | _ \<Rightarrow> AddErr (NotAString val) metadata1)"

text \<open>
  What the producer goroutine does, in order: a send on \<^verbatim>\<open>cItems\<close>, a send on
  \<^verbatim>\<open>cErrors\<close>, a line on standard output, a run-time panic, and the two deferred closes.
  The diagnostics written to standard error are left out.
\<close>

datatype event =
    SendItem gomap
  | SendError error
  | Print string
  | Panic string
  | CloseItems
  | CloseErrors

text \<open>The two statements of \<^verbatim>\<open>decodeItems\<close> that assign the parent values to the item.\<close>

definition enrich :: "gomap \<Rightarrow> gomap \<Rightarrow> gomap" where
  "enrich v metadata = fmupd ''metadata'' (VMap metadata) v ++\<^sub>f metadata"

datatype ret = Return "error option" | Panics

lemma Decode_map_shorter:
  "Decode_map d = ((e, Some m), d') \<Longrightarrow> length (buf d') < length (buf d)"
  by (auto simp: Decode_map_def split: prod.splits sum.splits gval.splits
      dest: Decode_value_shorter)

text \<open>
  The loop of \<^verbatim>\<open>decodeItems\<close>.  A failed \<^verbatim>\<open>Decode\<close> is sent on \<^verbatim>\<open>cErrors\<close> and the loop
  body goes on with the item as it is: the assignment \<^verbatim>\<open>v["metadata"] = metadata\<close> to a
  nil map panics.
\<close>

function decodeItems_loop :: "gomap \<Rightarrow> Decoder \<Rightarrow> event list \<times> ret \<times> Decoder" where
  "decodeItems_loop metadata d =
     (if \<not> More d then ([], Return None, d)
      else
        (case Decode_map d of
           ((e, v), d1) \<Rightarrow>
             (let evs = (case e of
                           Some x \<Rightarrow> [SendError (Wrap ''decodeItems'' (Json x))]
                         | None \<Rightarrow> [])
              in case v of
                   None \<Rightarrow> (evs @ [Panic ''assignment to entry in nil map''], Panics, d1)
                 | Some m \<Rightarrow>
                     (case decodeItems_loop metadata d1 of
                        (evs', r, d2) \<Rightarrow> (evs @ SendItem (enrich m metadata) # evs', r, d2)))))"
  by pat_completeness auto
termination
  by (relation "measure (\<lambda>(metadata, d). length (buf d))")
     (auto dest: Decode_map_shorter [OF sym])

declare decodeItems_loop.simps [simp del]

definition decodeItems :: "Decoder \<Rightarrow> gomap \<Rightarrow> event list \<times> ret \<times> Decoder" where
  "decodeItems dec metadata =
     (case expect dec (Delim CHR ''['') of
        (Some e, d1) \<Rightarrow> ([], Return (Some (Wrap ''decodeItems: begin bracket not found'' e)), d1)
      | (None, d1) \<Rightarrow> decodeItems_loop metadata d1)"

lemma decodeItems_loop_le:
  "decodeItems_loop metadata d = (evs, r, d') \<Longrightarrow> length (buf d') \<le> length (buf d)"
proof (induction metadata d arbitrary: evs r d' rule: decodeItems_loop.induct)
  case (1 metadata d)
  show ?case
  proof (cases "More d")
    case False
    with "1.prems" show ?thesis by (simp add: decodeItems_loop.simps [of metadata d])
  next
    case True
    obtain e v d1 where dm: "Decode_map d = ((e, v), d1)"
      by (metis prod.exhaust)
    show ?thesis
    proof (cases v)
      case None
      with "1.prems" True dm show ?thesis
        by (auto simp: decodeItems_loop.simps [of metadata d] Decode_map_def Decode_value_def
            tokenPrepareForDecode_def tokenValueEnd_def Let_def simp del: scan.simps
            split: prod.splits sum.splits gval.splits option.splits if_splits list.splits
            dest!: scan_shorter)
    next
      case (Some m)
      obtain evs' r' d2 where rec: "decodeItems_loop metadata d1 = (evs', r', d2)"
        by (metis prod.exhaust)
      from "1.prems" True dm Some rec have "d' = d2"
        by (simp add: decodeItems_loop.simps [of metadata d] Let_def)
      moreover have "length (buf d2) \<le> length (buf d1)"
        using "1.IH" [OF _ dm [symmetric] refl refl Some rec] True by simp
      moreover have "length (buf d1) < length (buf d)"
        using dm Some by (auto dest: Decode_map_shorter)
      ultimately show ?thesis by simp
    qed
  qed
qed

lemma expect_shorter: "expect d t = (None, d') \<Longrightarrow> length (buf d') < length (buf d)"
  by (auto simp: expect_def split: prod.splits sum.splits if_splits dest: Token_shorter)

lemma decodeItems_shorter:
  "decodeItems d metadata = (evs, Return None, d') \<Longrightarrow> length (buf d') < length (buf d)"
  by (auto simp: decodeItems_def split: prod.splits option.splits
      dest!: expect_shorter decodeItems_loop_le)

lemma skip_shorter: "skip d = (None, d') \<Longrightarrow> length (buf d') < length (buf d)"
  by (simp add: skip_def skip_loop_shorter)

text \<open>The type assertion \<^verbatim>\<open>t.(string)\<close> and the type test \<^verbatim>\<open>v.(json.Delim)\<close>.\<close>

fun asString :: "token \<Rightarrow> string option" where
  "asString (TVal (VStr f)) = Some f"
| "asString _ = None"

fun isDelim :: "token \<Rightarrow> bool" where
  "isDelim (Delim c) = True"
| "isDelim _ = False"

text \<open>
  The loop \<^verbatim>\<open>for dec.More()\<close> of the goroutine in \<^verbatim>\<open>DecodeAndSplitItems\<close>, from the
  current decoder and metadata: the events it produces and the metadata map as the
  goroutine leaves it.  Every \<^verbatim>\<open>return\<close> of the source ends the list.
\<close>

function scanFields :: "ItemTransformSpec \<Rightarrow> gomap \<Rightarrow> Decoder \<Rightarrow> event list \<times> gomap" where
  "scanFields spec metadata dec =
     (if \<not> More dec then ([Print ''decoder goroutine ended normally''], metadata)
      else
        (case Token dec of
           (Inl e, d1) \<Rightarrow> ([SendError (Wrap ''DecodeAndSplitItems'' (Json e))], metadata)
         | (Inr t, d1) \<Rightarrow>
            (case asString t of
               Some f \<Rightarrow>
                (if f = ItemsField spec then
                   (case decodeItems d1 metadata of
                      (evs, Panics, d2) \<Rightarrow> (evs, metadata)
                    | (evs, Return (Some e), d2) \<Rightarrow>
                        (evs @ [SendError (Wrap ''DecodeAndSplitItems'' e)], metadata)
                    | (evs, Return None, d2) \<Rightarrow>
                        (case scanFields spec metadata d2 of
                           (evs', metadata') \<Rightarrow> (evs @ evs', metadata')))
                 else
                   (case fmlookup (Fields spec) f of
                      Some tfv \<Rightarrow>
                        (case Token d1 of
                           (Inl e, d2) \<Rightarrow> ([SendError (FieldToken f (Json e))], metadata)
                         | (Inr v, d2) \<Rightarrow>
                            (if isDelim v then ([SendError (DelimValue f v)], metadata)
                             else
                               (case addMetadata metadata (if tfv = [] then f else tfv) v of
                                  AddErr e metadata1 \<Rightarrow>
                                    ([SendError (Wrap ''DecodeAndSplitItems'' e)], metadata1)
                                | AddPanic \<Rightarrow> ([Panic ''interface conversion''], metadata)
                                | AddOk metadata1 \<Rightarrow> scanFields spec metadata1 d2)))
                    | None \<Rightarrow>
                        (case skip d1 of
                           (Some e, d2) \<Rightarrow>
                             ([SendError (Wrap ''DecodeAndSplitItems'' e)], metadata)
                         | (None, d2) \<Rightarrow> scanFields spec metadata d2)))
             | None \<Rightarrow>
                 (case scanFields spec metadata d1 of
                    (evs, metadata') \<Rightarrow>
                      (Print ''token is not of type string'' # evs, metadata')))))"
  by pat_completeness auto
termination
  by (relation "measure (\<lambda>(spec, metadata, dec). length (buf dec))")
     (auto dest!: Token_shorter [OF sym] decodeItems_shorter [OF sym] skip_shorter [OF sym])

declare scanFields.simps [simp del]

text \<open>
  The map \<^verbatim>\<open>DecodeAndSplitItems\<close> starts from; \<open>now\<close> is
  \<^verbatim>\<open>time.Now().UTC().Format(time.RFC3339Nano)\<close>.
\<close>

definition initial_metadata :: "string \<Rightarrow> gomap" where
  "initial_metadata now =
     fmupd ''ingest_time'' (VStr now)
       (fmupd ''event_source'' (VStr ''something_useful'')
         (fmupd ''event_type'' (VStr ''config_snapshot'') fmempty))"

text \<open>
  The goroutine of \<^verbatim>\<open>DecodeAndSplitItems\<close> on the input \<open>r\<close>: the events of its body, then
  the deferred calls in reverse order of their \<^verbatim>\<open>defer\<close> statements, which run on every
  return and on a panic.
\<close>

definition producer_body :: "ItemTransformSpec \<Rightarrow> gomap \<Rightarrow> lexeme list \<Rightarrow> event list \<times> gomap" where
  "producer_body spec metadata r =
     (case expect (NewDecoder r) (Delim CHR ''{'') of
        (Some e, d1) \<Rightarrow> ([SendError (Wrap ''DecodeAndSplitItems'' e)], metadata)
      | (None, d1) \<Rightarrow> scanFields spec metadata d1)"

definition producer :: "ItemTransformSpec \<Rightarrow> string \<Rightarrow> lexeme list \<Rightarrow> event list" where
  "producer spec now r =
     fst (producer_body spec (initial_metadata now) r) @ [CloseErrors, CloseItems]"

text \<open>What the run sends on \<^verbatim>\<open>cItems\<close> and on \<^verbatim>\<open>cErrors\<close>, in order.\<close>

fun sent_items :: "event list \<Rightarrow> gomap list" where
  "sent_items [] = []"
| "sent_items (SendItem v # evs) = v # sent_items evs"
| "sent_items (_ # evs) = sent_items evs"

fun sent_errors :: "event list \<Rightarrow> error list" where
  "sent_errors [] = []"
| "sent_errors (SendError e # evs) = e # sent_errors evs"
| "sent_errors (_ # evs) = sent_errors evs"

subsection \<open>The writer pool\<close>

text \<open>
  \<^verbatim>\<open>WorkerStatus\<close>.  The counters are Go's \<^verbatim>\<open>int\<close>; a run does not reach the end of
  its range, so they are integers here.
\<close>

record WorkerStatus =
  WorkerNum :: nat
  ItemCount :: int
  ByteCount :: int
  StartTime :: string
  EndTime :: string
  Duration :: int
  ErrorCount :: int
  Status :: string

text \<open>
  \<^verbatim>\<open>ItemWriter\<close>: the error a call of \<^verbatim>\<open>Write\<close> returns for an item, \<open>None\<close> for \<^verbatim>\<open>nil\<close>.
  \<^verbatim>\<open>NullWriter\<close> always returns \<^verbatim>\<open>nil\<close>; a \<^verbatim>\<open>FileWriter\<close> is any such function.
\<close>

type_synonym ItemWriter = "gomap \<Rightarrow> string option"



text \<open>
  What a worker needs from outside: \<open>sprintf_len i\<close> is \<^verbatim>\<open>len(fmt.Sprintf("%s", i))\<close>, and
  \<open>clock n\<close> gives worker \<open>n\<close> its formatted start time, its formatted end time
  and the duration between them.
\<close>

record Env =
  sprintf_len :: "gomap \<Rightarrow> int"
  clock :: "nat \<Rightarrow> string \<times> string \<times> int"

text \<open>One pass of the loop \<^verbatim>\<open>for i := range wp.chItem\<close>.\<close>

definition worker_step :: "Env \<Rightarrow> ItemWriter \<Rightarrow> WorkerStatus \<Rightarrow> gomap \<Rightarrow> WorkerStatus" where
  "worker_step env w status i =
     (let s1 = status\<lparr>ItemCount := ItemCount status + 1\<rparr>;
          s2 = s1\<lparr>ByteCount := ByteCount s1 + sprintf_len env i\<rparr>
      in case w i of
           Some e \<Rightarrow> s2\<lparr>ErrorCount := ErrorCount s2 + 1\<rparr>
         | None \<Rightarrow> s2)"

text \<open>
  The goroutine of worker \<open>worker\<close>, given the items it receives before \<^verbatim>\<open>cItems\<close> is
  closed and drained: the status it sends on \<^verbatim>\<open>chStatus\<close>.
\<close>

definition worker_run :: "Env \<Rightarrow> (unit \<Rightarrow> ItemWriter) \<Rightarrow> nat \<Rightarrow> gomap list \<Rightarrow> WorkerStatus" where
  "worker_run env writerFactory worker items =
     (let w = writerFactory ();
          status = \<lparr>WorkerNum = worker, ItemCount = 0, ByteCount = 0,
                    StartTime = fst (clock env worker), EndTime = [], Duration = 0,
                    ErrorCount = 0, Status = ''starting''\<rparr>;
          status = foldl (worker_step env w) status items
      in status\<lparr>EndTime := fst (snd (clock env worker)),
                Duration := snd (snd (clock env worker)),
                Status := ''ended normally''\<rparr>)"






section \<open>Documents\<close>

text \<open>
  A JSON text as a tree, and the lexemes that spell it.  An object keeps its members in
  the order of the text, with repeated keys.
\<close>

datatype json =
    JNull
  | JBool bool
  | JNum string
  | JStr string
  | JArr "json list"
  | JObj "(string \<times> json) list"

fun commas :: "lexeme list list \<Rightarrow> lexeme list" where
  "commas [] = []"
| "commas [x] = x"
| "commas (x # y # ys) = x @ Comma # commas (y # ys)"

definition member :: "string \<times> lexeme list \<Rightarrow> lexeme list" where
  "member kv = LStr (fst kv) # Colon # snd kv"

primrec lex :: "json \<Rightarrow> lexeme list" where
  "lex JNull = [LNull]"
| "lex (JBool b) = [if b then LTrue else LFalse]"
| "lex (JNum n) = [LNum n]"
| "lex (JStr s) = [LStr s]"
| "lex (JArr vs) = LBrack # commas (map lex vs) @ [RBrack]"
| "lex (JObj kvs) = LBrace # commas (map member (map (map_prod (\<lambda>k. k) lex) kvs)) @ [RBrace]"

text \<open>The Go value \<^verbatim>\<open>encoding/json\<close> decodes a JSON text into: a later member of an
  object replaces an earlier one with the same key.\<close>

definition store :: "(string \<times> 'a) list \<Rightarrow> (string, 'a) fmap \<Rightarrow> (string, 'a) fmap" where
  "store kvs m = fold (\<lambda>kv. fmupd (fst kv) (snd kv)) kvs m"

primrec val_of :: "json \<Rightarrow> gval" where
  "val_of JNull = VNil"
| "val_of (JBool b) = VBool b"
| "val_of (JNum n) = VNum n"
| "val_of (JStr s) = VStr s"
| "val_of (JArr vs) = VArr (map val_of vs)"
| "val_of (JObj kvs) = VMap (store (map (map_prod (\<lambda>k. k) val_of) kvs) fmempty)"

fun is_JStr :: "json \<Rightarrow> bool" where
  "is_JStr (JStr s) = True"
| "is_JStr _ = False"

fun is_JObj :: "json \<Rightarrow> bool" where
  "is_JObj (JObj kvs) = True"
| "is_JObj _ = False"

text \<open>The map an object element of the array is decoded into.\<close>

fun item_of :: "json \<Rightarrow> gomap" where
  "item_of (JObj kvs) = store (map (map_prod (\<lambda>k. k) val_of) kvs) fmempty"
| "item_of _ = fmempty"

section \<open>Notions used in the statements and proofs\<close>

fun resume :: "stepres \<Rightarrow> lexeme list \<Rightarrow> jerror + gval \<times> lexeme list" where
  "resume (StErr e) rest = Inl e"
| "resume (StDone v) rest = Inr (v, rest)"
| "resume (StCont ph stk) rest = scan ph stk rest"

fun sep :: "tstate \<Rightarrow> lexeme list" where
  "sep tokenObjectColon = [Colon]"
| "sep tokenArrayComma = [Comma]"
| "sep s = []"

fun vstate :: "tstate \<Rightarrow> tstate" where
  "vstate tokenObjectColon = tokenObjectValue"
| "vstate tokenArrayComma = tokenArrayValue"
| "vstate s = s"

fun after :: "tstate \<Rightarrow> tstate" where
  "after tokenTopValue = tokenTopValue"
| "after tokenArrayStart = tokenArrayComma"
| "after tokenArrayValue = tokenArrayComma"
| "after tokenArrayComma = tokenArrayComma"
| "after tokenObjectColon = tokenObjectComma"
| "after tokenObjectValue = tokenObjectComma"
| "after s = s"

fun vpos :: "tstate \<Rightarrow> bool" where
  "vpos tokenObjectStart = False"
| "vpos tokenObjectKey = False"
| "vpos tokenObjectComma = False"
| "vpos s = True"

definition cont :: "int \<Rightarrow> Decoder \<Rightarrow> error option \<times> Decoder" where
  "cont n d = (if n = 0 then (None, d) else skip_loop n d)"

definition snapshot_of :: "gomap \<Rightarrow> (string, string) fmap" where
  "snapshot_of md = (case fmlookup md snapshotKey of Some (VStrMap m) \<Rightarrow> m | _ \<Rightarrow> fmempty)"

definition with_snapshot :: "gomap \<Rightarrow> (string \<times> string) list \<Rightarrow> gomap" where
  "with_snapshot md cl =
     (if cl = [] then md else fmupd snapshotKey (VStrMap (store cl (snapshot_of md))) md)"

definition md_ok :: "gomap \<Rightarrow> bool" where
  "md_ok md = (case fmlookup md snapshotKey of
                 None \<Rightarrow> True | Some (VStrMap m) \<Rightarrow> True | Some _ \<Rightarrow> False)"

fun capture_list :: "ItemTransformSpec \<Rightarrow> (string \<times> json) list \<Rightarrow> (string \<times> string) list" where
  "capture_list spec [] = []"
| "capture_list spec ((k, v) # kvs) =
     (case (fmlookup (Fields spec) k, v) of
        (Some tfv, JStr s) \<Rightarrow> (if tfv = [] then k else tfv, s) # capture_list spec kvs
      | _ \<Rightarrow> capture_list spec kvs)"

definition scannable :: "ItemTransformSpec \<Rightarrow> (string \<times> json) list \<Rightarrow> bool" where
  "scannable spec pre =
     list_all (\<lambda>kv. fst kv \<noteq> ItemsField spec
                 \<and> (fmlookup (Fields spec) (fst kv) \<noteq> None \<longrightarrow> is_JStr (snd kv))) pre"

definition lead :: "tstate \<Rightarrow> lexeme list" where
  "lead s = (if s = tokenObjectComma then [Comma] else [])"

fun flds :: "tstate \<Rightarrow> (string \<times> json) list \<Rightarrow> lexeme list" where
  "flds s [] = []"
| "flds s (kv # kvs) = lead s @ LStr (fst kv) # Colon # lex (snd kv) @ flds tokenObjectComma kvs"

definition item_ok :: "gomap \<Rightarrow> event \<Rightarrow> bool" where
  "item_ok md e =
     (case e of
        SendItem v \<Rightarrow> fmlookup v ''metadata'' = Some (VMap md)
      | CloseItems \<Rightarrow> False
      | CloseErrors \<Rightarrow> False
      | _ \<Rightarrow> True)"

fun is_LStr :: "lexeme \<Rightarrow> bool" where
  "is_LStr (LStr s) = True"
| "is_LStr _ = False"

definition field_type_error :: "string \<Rightarrow> json \<Rightarrow> error" where
  "field_type_error k v =
     (case v of
        JArr vs \<Rightarrow> DelimValue k (Delim CHR ''['')
      | JObj kvs \<Rightarrow> DelimValue k (Delim CHR ''{'')
      | _ \<Rightarrow> Wrap ''DecodeAndSplitItems'' (NotAString (TVal (val_of v))))"

text \<open>
  Positions of the token state machine inside an object: before a key, and between a key
  and the end of its value.  \<open>token_effect d t d1\<close> is what a successful \<^verbatim>\<open>Token\<close> does to the
  token stack and state; \<open>skip_inv n d\<close> is the invariant of the loop of \<^verbatim>\<open>skip\<close> with the
  counter at \<open>n\<close>.
\<close>

definition key_pos :: "Decoder \<Rightarrow> bool" where
  "key_pos d = (tokenState d = tokenObjectStart \<or> tokenState d = tokenObjectComma)"

definition in_value :: "Decoder \<Rightarrow> bool" where
  "in_value d = (tokenState d = tokenObjectColon \<or> tokenState d = tokenObjectValue)"

definition token_effect :: "Decoder \<Rightarrow> token \<Rightarrow> Decoder \<Rightarrow> bool" where
  "token_effect d t d1 =
     (case t of
        TVal x \<Rightarrow>
          tokenStack d1 = tokenStack d \<and> (in_value d \<longrightarrow> tokenState d1 = tokenObjectComma)
      | Delim c \<Rightarrow>
          if c = CHR ''['' \<or> c = CHR ''{'' then
            tokenStack d1 \<noteq> [] \<and> tl (tokenStack d1) = tokenStack d
            \<and> (in_value d \<longrightarrow> hd (tokenStack d1) = tokenObjectValue)
            \<and> (c = CHR ''{'' \<longrightarrow> tokenState d1 = tokenObjectStart)
          else
            (c = CHR '']'' \<or> c = CHR ''}'') \<and> \<not> in_value d
            \<and> tokenStack d \<noteq> [] \<and> tl (tokenStack d) = tokenStack d1
            \<and> (hd (tokenStack d) = tokenObjectValue \<longrightarrow> tokenState d1 = tokenObjectComma))"

definition skip_inv :: "int \<Rightarrow> Decoder \<Rightarrow> bool" where
  "skip_inv n d =
     (if n = 0 then in_value d
      else 0 < n \<and> nat (n - 1) < length (tokenStack d)
           \<and> tokenStack d ! nat (n - 1) = tokenObjectValue)"

definition main_spec :: ItemTransformSpec where
  "main_spec = \<lparr>Fields = fmupd ''fileVersion'' [] (fmupd ''configSnapshotId'' [] fmempty),
                ItemsField = ''configurationItems''\<rparr>"

definition example_pre :: "(string \<times> json) list" where
  "example_pre = [(''fileVersion'', JStr ''1.0''), (''configSnapshotId'', JStr ''abc'')]"

definition example_elems :: "json list" where
  "example_elems = [JObj [(''resourceId'', JStr ''r1'')], JObj [(''resourceId'', JStr ''r2'')]]"

definition example_doc :: json where
  "example_doc = JObj (example_pre @ [(''configurationItems'', JArr example_elems)])"

definition example_metadata :: gomap where
  "example_metadata =
     fmupd ''config_snapshot''
       (VStrMap (fmupd ''configSnapshotId'' ''abc'' (fmupd ''fileVersion'' ''1.0'' fmempty)))
       (initial_metadata ''T'')"

definition malformed_doc :: json where
  "malformed_doc =
     JObj [(''configurationItems'',
            JArr [JObj [(''resourceId'', JStr ''r1'')], JNum ''5'',
                  JObj [(''resourceId'', JStr ''r2'')]])]"

definition document :: "ItemTransformSpec \<Rightarrow> (string \<times> json) list \<Rightarrow> json list \<Rightarrow> (string \<times> json) list \<Rightarrow> lexeme list" where
  "document spec pre elems post = lex (JObj (pre @ (ItemsField spec, JArr elems) # post))"


section \<open>The decoder on well-formed text\<close>

lemma scan_Cons: "scan ph stk (l # ls) = resume (step ph stk l) ls"
  by (cases "step ph stk l") auto

lemma commas_Cons: "commas (x # xs) = x @ concat (map (\<lambda>y. Comma # y) xs)"
  by (induction xs arbitrary: x) auto

lemma lex_first:
  "\<exists>l ls. lex v = l # ls \<and> l \<noteq> RBrack \<and> l \<noteq> RBrace \<and> l \<noteq> Comma \<and> l \<noteq> Colon"
  by (cases v) auto

lemma scan_BeginValueOrEmpty_lex:
  "scan BeginValueOrEmpty stk (lex v @ rest) = scan BeginValue stk (lex v @ rest)"
  using lex_first [of v] by auto

lemma store_Cons: "store (kv # kvs) m = store kvs (fmupd (fst kv) (snd kv) m)"
  by (simp add: store_def)

lemma scan_array_tail:
  assumes "\<And>x stk rest. x \<in> set vs \<Longrightarrow>
             scan BeginValue stk (lex x @ rest) = resume (deliver (val_of x) stk) rest"
  shows "scan EndValue (InArr acc # stk) (concat (map (\<lambda>x. Comma # lex x) vs) @ RBrack # rest)
         = resume (deliver (VArr (rev acc @ map val_of vs)) stk) rest"
  using assms
proof (induction vs arbitrary: acc)
  case Nil
  show ?case by (simp add: scan_Cons endValue_def del: scan.simps)
next
  case (Cons v vs)
  have "scan EndValue (InArr acc # stk) (concat (map (\<lambda>x. Comma # lex x) (v # vs)) @ RBrack # rest)
        = scan BeginValue (InArr acc # stk) (lex v @ concat (map (\<lambda>x. Comma # lex x) vs) @ RBrack # rest)"
    by (simp add: endValue_def)
  also have "\<dots> = scan EndValue (InArr (val_of v # acc) # stk)
                     (concat (map (\<lambda>x. Comma # lex x) vs) @ RBrack # rest)"
    by (simp add: Cons.prems)
  also have "\<dots> = resume (deliver (VArr (rev (val_of v # acc) @ map val_of vs)) stk) rest"
    by (rule Cons.IH) (simp add: Cons.prems)
  also have "\<dots> = resume (deliver (VArr (rev acc @ map val_of (v # vs))) stk) rest"
    by simp
  finally show ?case .
qed

lemma scan_object_tail:
  assumes "\<And>k x stk rest. (k, x) \<in> set kvs \<Longrightarrow>
             scan BeginValue stk (lex x @ rest) = resume (deliver (val_of x) stk) rest"
  shows "scan EndValue (InObj m # stk)
           (concat (map (\<lambda>kv. Comma # member (map_prod (\<lambda>k. k) lex kv)) kvs) @ RBrace # rest)
         = resume (deliver (VMap (store (map (map_prod (\<lambda>k. k) val_of) kvs) m)) stk) rest"
  using assms
proof (induction kvs arbitrary: m)
  case Nil
  show ?case by (simp add: scan_Cons endValue_def store_def del: scan.simps)
next
  case (Cons kv kvs)
  obtain k v where kv: "kv = (k, v)" by (cases kv)
  let ?tail = "concat (map (\<lambda>kv. Comma # member (map_prod (\<lambda>k. k) lex kv)) kvs) @ RBrace # rest"
  have "scan EndValue (InObj m # stk)
          (concat (map (\<lambda>kv. Comma # member (map_prod (\<lambda>k. k) lex kv)) (kv # kvs)) @ RBrace # rest)
        = scan BeginValue (InKey m k # stk) (lex v @ ?tail)"
    by (simp add: kv endValue_def beginString_def member_def)
  also have "\<dots> = scan EndValue (InObj (fmupd k (val_of v) m) # stk) ?tail"
    using Cons.prems [of k v] by (simp add: kv)
  also have "\<dots> = resume (deliver (VMap (store (map (map_prod (\<lambda>k. k) val_of) kvs)
                        (fmupd k (val_of v) m))) stk) rest"
  proof (rule Cons.IH)
    fix k' x stk' rest'
    assume "(k', x) \<in> set kvs"
    then show "scan BeginValue stk' (lex x @ rest') = resume (deliver (val_of x) stk') rest'"
      using Cons.prems [of k' x] by simp
  qed
  also have "\<dots> = resume (deliver (VMap (store (map (map_prod (\<lambda>k. k) val_of) (kv # kvs)) m)) stk) rest"
    by (simp add: kv store_Cons)
  finally show ?case .
qed

lemma scan_lex:
  "scan BeginValue stk (lex v @ rest) = resume (deliver (val_of v) stk) rest"
proof (induction v arbitrary: stk rest)
  case (JArr vs)
  show ?case
  proof (cases vs)
    case Nil
    then show ?thesis by (simp add: beginValue_def endValue_def scan_Cons del: scan.simps)
  next
    case (Cons x xs)
    have "scan BeginValue stk (lex (JArr vs) @ rest)
          = scan BeginValueOrEmpty (InArr [] # stk)
              (lex x @ concat (map (\<lambda>y. Comma # lex y) xs) @ RBrack # rest)"
      by (simp add: Cons beginValue_def commas_Cons comp_def)
    also have "\<dots> = scan EndValue (InArr [val_of x] # stk)
                       (concat (map (\<lambda>y. Comma # lex y) xs) @ RBrack # rest)"
      by (simp add: scan_BeginValueOrEmpty_lex JArr.IH Cons)
    also have "\<dots> = resume (deliver (VArr (rev [val_of x] @ map val_of xs)) stk) rest"
      by (rule scan_array_tail) (simp add: JArr.IH Cons)
    also have "\<dots> = resume (deliver (val_of (JArr vs)) stk) rest"
      by (simp add: Cons)
    finally show ?thesis .
  qed
next
  case (JObj kvs)
  have IH: "scan BeginValue stk (lex x @ rest) = resume (deliver (val_of x) stk) rest"
    if "(k, x) \<in> set kvs" for k x stk rest
    using that JObj.IH [of "(k, x)" x] by auto
  show ?case
  proof (cases kvs)
    case Nil
    then show ?thesis
      by (simp add: beginValue_def endValue_def scan_Cons store_def del: scan.simps)
  next
    case (Cons kv xs)
    obtain k x where kv: "kv = (k, x)" by (cases kv)
    let ?tail = "concat (map (\<lambda>kv. Comma # member (map_prod (\<lambda>k. k) lex kv)) xs) @ RBrace # rest"
    have "scan BeginValue stk (lex (JObj kvs) @ rest)
          = scan BeginValue (InKey fmempty k # stk) (lex x @ ?tail)"
      by (simp add: Cons kv beginValue_def beginString_def endValue_def commas_Cons member_def
          comp_def)
    also have "\<dots> = scan EndValue (InObj (fmupd k (val_of x) fmempty) # stk) ?tail"
      using IH [of k x] by (simp add: Cons kv)
    also have "\<dots> = resume (deliver (VMap (store (map (map_prod (\<lambda>k. k) val_of) xs)
                          (fmupd k (val_of x) fmempty))) stk) rest"
    proof (rule scan_object_tail)
      fix k' x' stk' rest'
      assume "(k', x') \<in> set xs"
      then show "scan BeginValue stk' (lex x' @ rest') = resume (deliver (val_of x') stk') rest'"
        using IH [of k' x'] by (simp add: Cons)
    qed
    also have "\<dots> = resume (deliver (val_of (JObj kvs)) stk) rest"
      by (simp add: Cons kv store_Cons)
    finally show ?thesis .
  qed
qed (simp_all add: beginValue_def scan_Cons del: scan.simps)

lemma Token_sep:
  assumes "vpos s" "tokenState d = s" "buf d = sep s @ ls"
  shows "Token d = Token (d\<lparr>buf := ls, tokenState := vstate s\<rparr>)"
proof (cases "sep s = []")
  case True
  then have "vstate s = s" by (cases s) simp_all
  moreover from True assms have "ls = buf d" "s = tokenState d" by simp_all
  ultimately have "d\<lparr>buf := ls, tokenState := vstate s\<rparr> = d" by simp
  then show ?thesis by simp
next
  case False
  then show ?thesis
    using assms by (subst Token.simps) (cases s; simp)
qed

lemma vstate_allowed: "vpos s \<Longrightarrow> tokenState d = vstate s \<Longrightarrow> tokenValueAllowed d"
  by (cases s) (simp_all add: tokenValueAllowed_def)

lemma vstate_end:
  "vpos s \<Longrightarrow> tokenState d = vstate s \<Longrightarrow> tokenValueEnd d = d\<lparr>tokenState := after s\<rparr>"
  by (cases s) (simp_all add: tokenValueEnd_def)

lemma Token_open_bracket:
  assumes "vpos s" "tokenState d = s" "buf d = sep s @ LBrack # rest"
  shows "Token d = (Inr (Delim CHR ''[''),
           d\<lparr>buf := rest, tokenStack := vstate s # tokenStack d, tokenState := tokenArrayStart\<rparr>)"
proof -
  let ?d1 = "d\<lparr>buf := LBrack # rest, tokenState := vstate s\<rparr>"
  have "tokenValueAllowed ?d1" using assms(1) by (intro vstate_allowed [of s]) simp_all
  then have "Token ?d1 = (Inr (Delim CHR ''[''),
           d\<lparr>buf := rest, tokenStack := vstate s # tokenStack d, tokenState := tokenArrayStart\<rparr>)"
    by (subst Token.simps) simp
  with Token_sep [OF assms] show ?thesis by simp
qed

lemma Token_open_brace:
  assumes "vpos s" "tokenState d = s" "buf d = sep s @ LBrace # rest"
  shows "Token d = (Inr (Delim CHR ''{''),
           d\<lparr>buf := rest, tokenStack := vstate s # tokenStack d, tokenState := tokenObjectStart\<rparr>)"
proof -
  let ?d1 = "d\<lparr>buf := LBrace # rest, tokenState := vstate s\<rparr>"
  have "tokenValueAllowed ?d1" using assms(1) by (intro vstate_allowed [of s]) simp_all
  then have "Token ?d1 = (Inr (Delim CHR ''{''),
           d\<lparr>buf := rest, tokenStack := vstate s # tokenStack d, tokenState := tokenObjectStart\<rparr>)"
    by (subst Token.simps) simp
  with Token_sep [OF assms] show ?thesis by simp
qed

lemma Token_close_bracket:
  assumes "tokenState d = tokenArrayStart \<or> tokenState d = tokenArrayComma"
    "vpos s" "tokenStack d = vstate s # stk" "buf d = RBrack # rest"
  shows "Token d = (Inr (Delim CHR '']''),
           d\<lparr>buf := rest, tokenStack := stk, tokenState := after s\<rparr>)"
proof -
  have "tokenValueEnd (d\<lparr>buf := rest, tokenState := vstate s, tokenStack := stk\<rparr>)
        = d\<lparr>buf := rest, tokenStack := stk, tokenState := after s\<rparr>"
    using assms(2) by (subst vstate_end [of s]) simp_all
  with assms show ?thesis by (subst Token.simps) auto
qed

lemma Token_close_brace:
  assumes "tokenState d = tokenObjectStart \<or> tokenState d = tokenObjectComma"
    "vpos s" "tokenStack d = vstate s # stk" "buf d = RBrace # rest"
  shows "Token d = (Inr (Delim CHR ''}''),
           d\<lparr>buf := rest, tokenStack := stk, tokenState := after s\<rparr>)"
proof -
  have "tokenValueEnd (d\<lparr>buf := rest, tokenState := vstate s, tokenStack := stk\<rparr>)
        = d\<lparr>buf := rest, tokenStack := stk, tokenState := after s\<rparr>"
    using assms(2) by (subst vstate_end [of s]) simp_all
  with assms show ?thesis by (subst Token.simps) auto
qed

lemma Token_value_scalar:
  assumes "tokenValueAllowed d" "err d = None" "buf d = l # rest" "scalar l = Some x"
  shows "Token_value d = (Inr (TVal x), tokenValueEnd (d\<lparr>buf := rest\<rparr>))"
  using assms
  by (cases l)
     (auto simp: Token_value_def Decode_value_def tokenPrepareForDecode_def tokenValueAllowed_def
        beginValue_def)

lemma Token_scalar:
  assumes "vpos s" "tokenState d = s" "err d = None" "buf d = sep s @ l # rest"
    "scalar l = Some x"
  shows "Token d = (Inr (TVal x), d\<lparr>buf := rest, tokenState := after s\<rparr>)"
proof -
  let ?d1 = "d\<lparr>buf := l # rest, tokenState := vstate s\<rparr>"
  have allowed: "tokenValueAllowed ?d1"
    using assms(1) by (intro vstate_allowed [of s]) simp_all
  have nokey: "vstate s \<noteq> tokenObjectStart" "vstate s \<noteq> tokenObjectKey"
    using assms(1) by (cases s; simp)+
  have "Token ?d1 = Token_value ?d1"
    using assms(5) nokey by (subst Token.simps) (cases l; simp)
  also have "\<dots> = (Inr (TVal x), tokenValueEnd (?d1\<lparr>buf := rest\<rparr>))"
    using allowed assms by (intro Token_value_scalar) simp_all
  also have "tokenValueEnd (?d1\<lparr>buf := rest\<rparr>) = d\<lparr>buf := rest, tokenState := after s\<rparr>"
    using assms(1) by (subst vstate_end [of s]) simp_all
  finally have "Token ?d1 = (Inr (TVal x), d\<lparr>buf := rest, tokenState := after s\<rparr>)" .
  with Token_sep [OF assms(1,2,4)] show ?thesis by simp
qed

lemma Token_key:
  assumes "tokenState d = tokenObjectStart" "err d = None" "buf d = LStr k # rest"
  shows "Token d = (Inr (TVal (VStr k)), d\<lparr>buf := rest, tokenState := tokenObjectColon\<rparr>)"
  using assms by (subst Token.simps) simp

lemma Token_next_key:
  assumes "tokenState d = tokenObjectComma" "err d = None" "buf d = Comma # LStr k # rest"
  shows "Token d = (Inr (TVal (VStr k)), d\<lparr>buf := rest, tokenState := tokenObjectColon\<rparr>)"
  using assms by (subst Token.simps, simp, subst Token.simps, simp)

lemma skip_loop_TVal: "Token d = (Inr (TVal x), d') \<Longrightarrow> skip_loop n d = cont n d'"
  by (subst skip_loop.simps) (simp add: cont_def)

lemma skip_loop_open:
  "Token d = (Inr (Delim c), d') \<Longrightarrow> c = CHR ''['' \<or> c = CHR ''{''
   \<Longrightarrow> skip_loop n d = cont (n + 1) d'"
  by (subst skip_loop.simps) (auto simp: cont_def)

lemma skip_loop_close:
  "Token d = (Inr (Delim c), d') \<Longrightarrow> c = CHR '']'' \<or> c = CHR ''}''
   \<Longrightarrow> skip_loop n d = cont (n - 1) d'"
  by (subst skip_loop.simps) (auto simp: cont_def)

lemma skip_array_tail:
  assumes IH: "\<And>x s d rest n. x \<in> set vs \<Longrightarrow> vpos s \<Longrightarrow> tokenState d = s \<Longrightarrow> err d = None
      \<Longrightarrow> buf d = sep s @ lex x @ rest \<Longrightarrow> 0 \<le> n
      \<Longrightarrow> skip_loop n d = cont n (d\<lparr>buf := rest, tokenState := after s\<rparr>)"
    and "tokenState e = tokenArrayComma" "err e = None" "vpos s" "tokenStack e = vstate s # stk"
    and "buf e = concat (map (\<lambda>x. Comma # lex x) vs) @ RBrack # rest" "0 \<le> n"
  shows "skip_loop (n + 1) e = cont n (e\<lparr>buf := rest, tokenStack := stk, tokenState := after s\<rparr>)"
  using assms
proof (induction vs arbitrary: e)
  case Nil
  have "Token e = (Inr (Delim CHR '']''), e\<lparr>buf := rest, tokenStack := stk, tokenState := after s\<rparr>)"
    using Nil.prems by (intro Token_close_bracket) simp_all
  then show ?case by (simp add: skip_loop_close)
next
  case (Cons x xs)
  let ?tail = "concat (map (\<lambda>x. Comma # lex x) xs) @ RBrack # rest"
  let ?e1 = "e\<lparr>buf := ?tail, tokenState := tokenArrayComma\<rparr>"
  have "skip_loop (n + 1) e = cont (n + 1) ?e1"
    using Cons.prems(1) [of x tokenArrayComma e ?tail "n + 1"] Cons.prems by simp
  also have "\<dots> = skip_loop (n + 1) ?e1"
    using Cons.prems by (simp add: cont_def)
  also have "\<dots> = cont n (?e1\<lparr>buf := rest, tokenStack := stk, tokenState := after s\<rparr>)"
  proof (rule Cons.IH)
    fix y s' and d' :: Decoder and rest' n'
    assume "y \<in> set xs" "vpos s'" "tokenState d' = s'" "err d' = None"
      "buf d' = sep s' @ lex y @ rest'" "(0::int) \<le> n'"
    then show "skip_loop n' d' = cont n' (d'\<lparr>buf := rest', tokenState := after s'\<rparr>)"
      using Cons.prems(1) [of y s' d' rest' n'] by simp
  qed (use Cons.prems in simp_all)
  finally show ?case by simp
qed

lemma skip_object_tail:
  assumes IH: "\<And>k x s d rest n. (k, x) \<in> set kvs \<Longrightarrow> vpos s \<Longrightarrow> tokenState d = s
      \<Longrightarrow> err d = None \<Longrightarrow> buf d = sep s @ lex x @ rest \<Longrightarrow> 0 \<le> n
      \<Longrightarrow> skip_loop n d = cont n (d\<lparr>buf := rest, tokenState := after s\<rparr>)"
    and "tokenState e = tokenObjectComma" "err e = None" "vpos s" "tokenStack e = vstate s # stk"
    and "buf e = concat (map (\<lambda>kv. Comma # member (map_prod (\<lambda>k. k) lex kv)) kvs) @ RBrace # rest"
    and "0 \<le> n"
  shows "skip_loop (n + 1) e = cont n (e\<lparr>buf := rest, tokenStack := stk, tokenState := after s\<rparr>)"
  using assms
proof (induction kvs arbitrary: e)
  case Nil
  have "Token e = (Inr (Delim CHR ''}''), e\<lparr>buf := rest, tokenStack := stk, tokenState := after s\<rparr>)"
    using Nil.prems by (intro Token_close_brace) simp_all
  then show ?case by (simp add: skip_loop_close)
next
  case (Cons kv xs)
  obtain k x where kv: "kv = (k, x)" by (cases kv)
  let ?tail = "concat (map (\<lambda>kv. Comma # member (map_prod (\<lambda>k. k) lex kv)) xs) @ RBrace # rest"
  let ?e1 = "e\<lparr>buf := Colon # lex x @ ?tail, tokenState := tokenObjectColon\<rparr>"
  let ?e2 = "e\<lparr>buf := ?tail, tokenState := tokenObjectComma\<rparr>"
  have "Token e = (Inr (TVal (VStr k)), ?e1)"
    using Cons.prems by (intro Token_next_key) (simp_all add: kv member_def)
  then have "skip_loop (n + 1) e = cont (n + 1) ?e1" by (rule skip_loop_TVal)
  also have "\<dots> = skip_loop (n + 1) ?e1"
    using Cons.prems by (simp add: cont_def)
  also have "\<dots> = cont (n + 1) (?e1\<lparr>buf := ?tail, tokenState := after tokenObjectColon\<rparr>)"
    using Cons.prems by (intro Cons.prems(1) [of k x]) (simp_all add: kv)
  also have "\<dots> = skip_loop (n + 1) ?e2"
    using Cons.prems by (simp add: cont_def)
  also have "\<dots> = cont n (?e2\<lparr>buf := rest, tokenStack := stk, tokenState := after s\<rparr>)"
  proof (rule Cons.IH)
    fix k' y s' and d' :: Decoder and rest' n'
    assume "(k', y) \<in> set xs" "vpos s'" "tokenState d' = s'" "err d' = None"
      "buf d' = sep s' @ lex y @ rest'" "(0::int) \<le> n'"
    then show "skip_loop n' d' = cont n' (d'\<lparr>buf := rest', tokenState := after s'\<rparr>)"
      using Cons.prems(1) [of k' y s' d' rest' n'] by simp
  qed (use Cons.prems in simp_all)
  finally show ?case by simp
qed

lemma skip_value:
  assumes "vpos s" "tokenState d = s" "err d = None" "buf d = sep s @ lex v @ rest" "0 \<le> n"
  shows "skip_loop n d = cont n (d\<lparr>buf := rest, tokenState := after s\<rparr>)"
  using assms
proof (induction v arbitrary: s d rest n)
  case JNull
  then show ?case by (intro skip_loop_TVal Token_scalar [where l = LNull]) simp_all
next
  case (JBool b)
  have "scalar (if b then LTrue else LFalse) = Some (VBool b)" by simp
  with JBool have "Token d = (Inr (TVal (VBool b)), d\<lparr>buf := rest, tokenState := after s\<rparr>)"
    by (intro Token_scalar [where l = "if b then LTrue else LFalse"]) simp_all
  then show ?case by (rule skip_loop_TVal)
next
  case (JNum x)
  then show ?case by (intro skip_loop_TVal Token_scalar [where l = "LNum x"]) simp_all
next
  case (JStr x)
  then show ?case by (intro skip_loop_TVal Token_scalar [where l = "LStr x"]) simp_all
next
  case (JArr vs)
  let ?inner = "commas (map lex vs) @ RBrack # rest"
  let ?d1 = "d\<lparr>buf := ?inner, tokenStack := vstate s # tokenStack d, tokenState := tokenArrayStart\<rparr>"
  have "Token d = (Inr (Delim CHR ''[''), ?d1)"
    using JArr.prems by (intro Token_open_bracket) simp_all
  then have "skip_loop n d = cont (n + 1) ?d1" by (simp add: skip_loop_open)
  also have "\<dots> = skip_loop (n + 1) ?d1" using JArr.prems by (simp add: cont_def)
  also have "\<dots> = cont n (d\<lparr>buf := rest, tokenState := after s\<rparr>)"
  proof (cases vs)
    case Nil
    have "Token ?d1 = (Inr (Delim CHR '']''),
            ?d1\<lparr>buf := rest, tokenStack := tokenStack d, tokenState := after s\<rparr>)"
      using JArr.prems Nil by (intro Token_close_bracket) simp_all
    then have "skip_loop (n + 1) ?d1
               = cont n (?d1\<lparr>buf := rest, tokenStack := tokenStack d, tokenState := after s\<rparr>)"
      by (simp add: skip_loop_close)
    then show ?thesis by simp
  next
    case (Cons x xs)
    let ?tail = "concat (map (\<lambda>x. Comma # lex x) xs) @ RBrack # rest"
    let ?d2 = "?d1\<lparr>buf := ?tail, tokenState := tokenArrayComma\<rparr>"
    have "skip_loop (n + 1) ?d1 = cont (n + 1) (?d1\<lparr>buf := ?tail, tokenState := after tokenArrayStart\<rparr>)"
      using JArr.prems Cons
      by (intro JArr.IH [of x]) (simp_all add: commas_Cons comp_def)
    also have "\<dots> = skip_loop (n + 1) ?d2" using JArr.prems by (simp add: cont_def)
    also have "\<dots> = cont n (?d2\<lparr>buf := rest, tokenStack := tokenStack d, tokenState := after s\<rparr>)"
    proof (rule skip_array_tail [where vs = xs and s = s])
      fix y s' and d' :: Decoder and rest' n'
      assume "y \<in> set xs" "vpos s'" "tokenState d' = s'" "err d' = None"
        "buf d' = sep s' @ lex y @ rest'" "(0::int) \<le> n'"
      then show "skip_loop n' d' = cont n' (d'\<lparr>buf := rest', tokenState := after s'\<rparr>)"
        using JArr.IH [of y s' d' rest' n'] Cons by simp
    qed (use JArr.prems in simp_all)
    finally show ?thesis by simp
  qed
  finally show ?case .
next
  case (JObj kvs)
  have IH: "skip_loop n' d' = cont n' (d'\<lparr>buf := rest', tokenState := after s'\<rparr>)"
    if "(k, y) \<in> set kvs" "vpos s'" "tokenState d' = s'" "err d' = None"
      "buf d' = sep s' @ lex y @ rest'" "0 \<le> n'" for k y s' d' rest' n'
    using that JObj.IH [of "(k, y)" y s' d' rest' n'] by auto
  let ?inner = "commas (map member (map (map_prod (\<lambda>k. k) lex) kvs)) @ RBrace # rest"
  let ?d1 = "d\<lparr>buf := ?inner, tokenStack := vstate s # tokenStack d, tokenState := tokenObjectStart\<rparr>"
  have "Token d = (Inr (Delim CHR ''{''), ?d1)"
    using JObj.prems by (intro Token_open_brace) simp_all
  then have "skip_loop n d = cont (n + 1) ?d1" by (simp add: skip_loop_open)
  also have "\<dots> = skip_loop (n + 1) ?d1" using JObj.prems by (simp add: cont_def)
  also have "\<dots> = cont n (d\<lparr>buf := rest, tokenState := after s\<rparr>)"
  proof (cases kvs)
    case Nil
    have "Token ?d1 = (Inr (Delim CHR ''}''),
            ?d1\<lparr>buf := rest, tokenStack := tokenStack d, tokenState := after s\<rparr>)"
      using JObj.prems Nil by (intro Token_close_brace) simp_all
    then have "skip_loop (n + 1) ?d1
               = cont n (?d1\<lparr>buf := rest, tokenStack := tokenStack d, tokenState := after s\<rparr>)"
      by (simp add: skip_loop_close)
    then show ?thesis by simp
  next
    case (Cons kv xs)
    obtain k x where kv: "kv = (k, x)" by (cases kv)
    let ?tail = "concat (map (\<lambda>kv. Comma # member (map_prod (\<lambda>k. k) lex kv)) xs) @ RBrace # rest"
    let ?d2 = "?d1\<lparr>buf := Colon # lex x @ ?tail, tokenState := tokenObjectColon\<rparr>"
    let ?d3 = "?d1\<lparr>buf := ?tail, tokenState := tokenObjectComma\<rparr>"
    have "Token ?d1 = (Inr (TVal (VStr k)), ?d2)"
      using JObj.prems Cons kv
      by (intro Token_key) (simp_all add: commas_Cons member_def comp_def)
    then have "skip_loop (n + 1) ?d1 = cont (n + 1) ?d2" by (rule skip_loop_TVal)
    also have "\<dots> = skip_loop (n + 1) ?d2" using JObj.prems by (simp add: cont_def)
    also have "\<dots> = cont (n + 1) (?d2\<lparr>buf := ?tail, tokenState := after tokenObjectColon\<rparr>)"
      using JObj.prems Cons kv by (intro IH [of k x]) simp_all
    also have "\<dots> = skip_loop (n + 1) ?d3" using JObj.prems by (simp add: cont_def)
    also have "\<dots> = cont n (?d3\<lparr>buf := rest, tokenStack := tokenStack d, tokenState := after s\<rparr>)"
    proof (rule skip_object_tail [where kvs = xs and s = s])
      fix k' y s' and d' :: Decoder and rest' n'
      assume "(k', y) \<in> set xs" "vpos s'" "tokenState d' = s'" "err d' = None"
        "buf d' = sep s' @ lex y @ rest'" "(0::int) \<le> n'"
      then show "skip_loop n' d' = cont n' (d'\<lparr>buf := rest', tokenState := after s'\<rparr>)"
        using IH [of k' y s' d' rest' n'] Cons by simp
    qed (use JObj.prems in simp_all)
    finally show ?thesis by simp
  qed
  finally show ?case .
qed

lemma skip_lex:
  assumes "tokenState d = tokenObjectColon" "err d = None" "buf d = Colon # lex v @ rest"
  shows "skip d = (None, d\<lparr>buf := rest, tokenState := tokenObjectComma\<rparr>)"
  using skip_value [of tokenObjectColon d v rest 0] assms by (simp add: skip_def cont_def)

lemma Decode_value_lex:
  assumes "vpos s" "tokenState d = s" "err d = None" "buf d = sep s @ lex v @ rest"
  shows "Decode_value d = (Inr (val_of v), d\<lparr>buf := rest, tokenState := after s\<rparr>)"
proof -
  obtain l ls where l: "lex v = l # ls" using lex_first [of v] by blast
  have sc: "scan BeginValue [] (l # ls @ rest) = Inr (val_of v, rest)"
    using scan_lex [of "[]" v rest] by (simp add: l)
  show ?thesis
    using assms sc
    by (cases s)
       (simp_all add: Decode_value_def tokenPrepareForDecode_def tokenValueAllowed_def
          tokenValueEnd_def l del: scan.simps)
qed

lemma Decode_map_lex:
  assumes "vpos s" "tokenState d = s" "err d = None" "buf d = sep s @ lex v @ rest" "is_JObj v"
  shows "Decode_map d = ((None, Some (item_of v)), d\<lparr>buf := rest, tokenState := after s\<rparr>)"
  using Decode_value_lex [OF assms(1-4)] assms(5)
  by (cases v) (simp_all add: Decode_map_def)

lemma More_Cons: "buf d = l # ls \<Longrightarrow> More d = (l \<noteq> RBrack \<and> l \<noteq> RBrace)"
  by (simp add: More_def peek_def)

lemma decodeItems_loop_tail:
  assumes "tokenState d = tokenArrayComma" "err d = None"
    and "buf d = concat (map (\<lambda>e. Comma # lex e) es) @ RBrack # rest"
    and "list_all is_JObj es"
  shows "decodeItems_loop metadata d
         = (map (\<lambda>e. SendItem (enrich (item_of e) metadata)) es, Return None,
            d\<lparr>buf := RBrack # rest, tokenState := tokenArrayComma\<rparr>)"
  using assms
proof (induction es arbitrary: d)
  case Nil
  then have "\<not> More d" by (simp add: More_Cons)
  moreover from Nil have "d\<lparr>buf := RBrack # rest, tokenState := tokenArrayComma\<rparr> = d"
    by (intro Decoder.equality) simp_all
  ultimately show ?case by (subst decodeItems_loop.simps) simp
next
  case (Cons e es)
  let ?tail = "concat (map (\<lambda>e. Comma # lex e) es) @ RBrack # rest"
  let ?d1 = "d\<lparr>buf := ?tail, tokenState := tokenArrayComma\<rparr>"
  have more: "More d" using Cons.prems by (simp add: More_Cons)
  have dm: "Decode_map d = ((None, Some (item_of e)), ?d1)"
    using Cons.prems Decode_map_lex [of tokenArrayComma d e ?tail] by simp
  have rec: "decodeItems_loop metadata ?d1
             = (map (\<lambda>e. SendItem (enrich (item_of e) metadata)) es, Return None,
                ?d1\<lparr>buf := RBrack # rest, tokenState := tokenArrayComma\<rparr>)"
    using Cons.prems by (intro Cons.IH) simp_all
  show ?case
    by (subst decodeItems_loop.simps) (simp add: more dm rec)
qed

lemma decodeItems_loop_lex:
  assumes "tokenState d = tokenArrayStart" "err d = None"
    and "buf d = commas (map lex es) @ RBrack # rest"
    and "list_all is_JObj es"
  shows "decodeItems_loop metadata d
         = (map (\<lambda>e. SendItem (enrich (item_of e) metadata)) es, Return None,
            d\<lparr>buf := RBrack # rest, tokenState := (if es = [] then tokenArrayStart else tokenArrayComma)\<rparr>)"
proof (cases es)
  case Nil
  with assms have "\<not> More d" by (simp add: More_Cons)
  moreover from Nil assms have "d\<lparr>buf := RBrack # rest, tokenState := tokenArrayStart\<rparr> = d"
    by (intro Decoder.equality) simp_all
  ultimately show ?thesis using Nil by (subst decodeItems_loop.simps) simp
next
  case (Cons e es')
  let ?tail = "concat (map (\<lambda>e. Comma # lex e) es') @ RBrack # rest"
  let ?d1 = "d\<lparr>buf := ?tail, tokenState := tokenArrayComma\<rparr>"
  obtain l ls where l: "lex e = l # ls" "l \<noteq> RBrack" "l \<noteq> RBrace"
    using lex_first [of e] by blast
  have more: "More d" using assms Cons l by (simp add: More_Cons commas_Cons)
  have dm: "Decode_map d = ((None, Some (item_of e)), ?d1)"
    using assms Cons Decode_map_lex [of tokenArrayStart d e ?tail]
    by (simp add: commas_Cons comp_def)
  have rec: "decodeItems_loop metadata ?d1
             = (map (\<lambda>e. SendItem (enrich (item_of e) metadata)) es', Return None,
                ?d1\<lparr>buf := RBrack # rest, tokenState := tokenArrayComma\<rparr>)"
    using assms Cons by (intro decodeItems_loop_tail) simp_all
  show ?thesis
    by (subst decodeItems_loop.simps) (simp add: more dm rec Cons)
qed

lemma decodeItems_lex:
  assumes "tokenState d = tokenObjectColon" "err d = None"
    and "buf d = Colon # LBrack # commas (map lex es) @ RBrack # rest"
    and "list_all is_JObj es"
  shows "\<exists>d2. decodeItems d metadata
         = (map (\<lambda>e. SendItem (enrich (item_of e) metadata)) es, Return None, d2)
         \<and> buf d2 = RBrack # rest"
proof -
  let ?d1 = "d\<lparr>buf := commas (map lex es) @ RBrack # rest,
                tokenStack := tokenObjectValue # tokenStack d, tokenState := tokenArrayStart\<rparr>"
  have "Token d = (Inr (Delim CHR ''[''), ?d1)"
    using assms Token_open_bracket [of tokenObjectColon d "commas (map lex es) @ RBrack # rest"]
    by simp
  then have ex: "expect d (Delim CHR ''['') = (None, ?d1)" by (simp add: expect_def)
  show ?thesis
    using assms decodeItems_loop_lex [of ?d1 es rest metadata]
    by (simp add: decodeItems_def ex)
qed

lemma addMetadata_string:
  "md_ok md \<Longrightarrow> addMetadata md key (TVal (VStr s)) = AddOk (with_snapshot md [(key, s)])"
  by (auto simp: addMetadata_def md_ok_def with_snapshot_def snapshot_of_def store_def Let_def
      split: option.splits gval.splits)

lemma snapshot_of_with_snapshot:
  "snapshot_of (with_snapshot md [(k, s)]) = fmupd k s (snapshot_of md)"
  by (simp add: with_snapshot_def snapshot_of_def store_def)

lemma with_snapshot_Cons:
  "with_snapshot (with_snapshot md [(k, s)]) cl = with_snapshot md ((k, s) # cl)"
  by (simp add: with_snapshot_def snapshot_of_def store_def)

lemma md_ok_with_snapshot: "md_ok md \<Longrightarrow> md_ok (with_snapshot md cl)"
  by (simp add: md_ok_def with_snapshot_def)

lemma flds_Comma: "flds tokenObjectComma kvs = concat (map (\<lambda>kv. Comma # member (map_prod (\<lambda>k. k) lex kv)) kvs)"
  by (induction kvs) (auto simp: lead_def member_def)

lemma commas_flds:
  "commas (map member (map (map_prod (\<lambda>k. k) lex) kvs)) = flds tokenObjectStart kvs"
  by (cases kvs) (auto simp: commas_Cons flds_Comma lead_def member_def comp_def)

lemma lex_JObj_flds: "lex (JObj kvs) = LBrace # flds tokenObjectStart kvs @ [RBrace]"
  by (simp only: lex.simps commas_flds)

lemma flds_append:
  "flds s (xs @ ys) = flds s xs @ flds (if xs = [] then s else tokenObjectComma) ys"
  by (induction xs arbitrary: s) auto

lemma Token_field_name:
  assumes "s = tokenObjectStart \<or> s = tokenObjectComma" "tokenState d = s" "err d = None"
    and "buf d = lead s @ LStr k # rest"
  shows "Token d = (Inr (TVal (VStr k)), d\<lparr>buf := rest, tokenState := tokenObjectColon\<rparr>)"
  using assms Token_key [of d k rest] Token_next_key [of d k rest]
  by (auto simp: lead_def)

lemma More_field:
  assumes "buf d = lead s @ LStr k # rest"
  shows "More d"
  using assms by (cases "s = tokenObjectComma") (simp_all add: lead_def More_Cons)

lemma scanFields_pre:
  assumes "s = tokenObjectStart \<or> s = tokenObjectComma" "tokenState d = s" "err d = None"
    and "buf d = flds s pre @ tail" "scannable spec pre" "md_ok md"
  shows "scanFields spec md d
         = scanFields spec (with_snapshot md (capture_list spec pre))
             (d\<lparr>buf := tail, tokenState := (if pre = [] then s else tokenObjectComma)\<rparr>)"
  using assms
proof (induction pre arbitrary: s d md)
  case Nil
  then have "d\<lparr>buf := tail, tokenState := s\<rparr> = d" by (intro Decoder.equality) simp_all
  then show ?case by (simp add: with_snapshot_def)
next
  case (Cons kv pre)
  obtain k v where kv: "kv = (k, v)" by (cases kv)
  let ?after = "flds tokenObjectComma pre @ tail"
  let ?d1 = "d\<lparr>buf := Colon # lex v @ ?after, tokenState := tokenObjectColon\<rparr>"
  let ?d2 = "d\<lparr>buf := ?after, tokenState := tokenObjectComma\<rparr>"
  have more: "More d" using Cons.prems by (intro More_field [of d s k]) (simp add: kv)
  have tok: "Token d = (Inr (TVal (VStr k)), ?d1)"
    using Cons.prems by (intro Token_field_name [of s]) (simp_all add: kv)
  have notitems: "k \<noteq> ItemsField spec" using Cons.prems by (simp add: scannable_def kv)
  have rest: "scannable spec pre" using Cons.prems by (simp add: scannable_def)
  have IH: "md_ok md' \<Longrightarrow> scanFields spec md' ?d2
         = scanFields spec (with_snapshot md' (capture_list spec pre))
             (d\<lparr>buf := tail, tokenState := tokenObjectComma\<rparr>)" for md'
    using Cons.IH [of tokenObjectComma ?d2 md'] Cons.prems rest by simp
  show ?case
  proof (cases "fmlookup (Fields spec) k")
    case None
    have sk: "skip ?d1 = (None, ?d2)"
      using Cons.prems skip_lex [of ?d1 v ?after] by simp
    have "scanFields spec md d = scanFields spec md ?d2"
      by (subst scanFields.simps) (simp add: more tok notitems None sk)
    also have "\<dots> = scanFields spec (with_snapshot md (capture_list spec pre))
             (d\<lparr>buf := tail, tokenState := tokenObjectComma\<rparr>)"
      using Cons.prems by (intro IH) simp
    finally show ?thesis by (simp add: kv None)
  next
    case (Some tfv)
    then obtain x where v: "v = JStr x"
      using Cons.prems by (cases v) (simp_all add: scannable_def kv)
    let ?key = "if tfv = [] then k else tfv"
    have tv: "Token ?d1 = (Inr (TVal (VStr x)), ?d2)"
      using Cons.prems Token_scalar [of tokenObjectColon ?d1 "LStr x" ?after "VStr x"]
      by (simp add: v)
    have am: "addMetadata md ?key (TVal (VStr x)) = AddOk (with_snapshot md [(?key, x)])"
      using Cons.prems by (intro addMetadata_string) simp
    have "scanFields spec md d = scanFields spec (with_snapshot md [(?key, x)]) ?d2"
      by (subst scanFields.simps) (simp add: more tok notitems Some tv am)
    also have "\<dots> = scanFields spec
                 (with_snapshot (with_snapshot md [(?key, x)]) (capture_list spec pre))
                 (d\<lparr>buf := tail, tokenState := tokenObjectComma\<rparr>)"
      using Cons.prems by (intro IH md_ok_with_snapshot) simp
    finally show ?thesis by (simp add: kv Some v with_snapshot_Cons)
  qed
qed

lemma scanFields_items:
  assumes "s = tokenObjectStart \<or> s = tokenObjectComma" "tokenState d = s" "err d = None"
    and "buf d = lead s @ LStr (ItemsField spec) # Colon # LBrack # commas (map lex es) @ RBrack # rest"
    and "list_all is_JObj es"
  shows "scanFields spec md d
         = (map (\<lambda>e. SendItem (enrich (item_of e) md)) es
              @ [Print ''decoder goroutine ended normally''], md)"
proof -
  let ?d1 = "d\<lparr>buf := Colon # LBrack # commas (map lex es) @ RBrack # rest,
               tokenState := tokenObjectColon\<rparr>"
  have more: "More d" using assms by (intro More_field [of d s "ItemsField spec"]) simp
  have tok: "Token d = (Inr (TVal (VStr (ItemsField spec))), ?d1)"
    using assms by (intro Token_field_name [of s]) simp_all
  obtain d2 where di: "decodeItems ?d1 md
      = (map (\<lambda>e. SendItem (enrich (item_of e) md)) es, Return None, d2)"
    and d2: "buf d2 = RBrack # rest"
    using decodeItems_lex [of ?d1 es rest md] assms by auto
  have nomore: "\<not> More d2" using d2 by (simp add: More_Cons)
  have fin: "scanFields spec md d2 = ([Print ''decoder goroutine ended normally''], md)"
    by (subst scanFields.simps) (simp add: nomore)
  show ?thesis
    by (subst scanFields.simps) (simp add: more tok di fin)
qed

theorem producer_body_document:
  assumes "scannable spec pre" "list_all is_JObj elems"
  shows "producer_body spec (initial_metadata now)
           (lex (JObj (pre @ (ItemsField spec, JArr elems) # post)))
         = (map (\<lambda>e. SendItem (enrich (item_of e)
                        (with_snapshot (initial_metadata now) (capture_list spec pre)))) elems
              @ [Print ''decoder goroutine ended normally''],
            with_snapshot (initial_metadata now) (capture_list spec pre))"
proof -
  let ?init = "initial_metadata now"
  let ?md = "with_snapshot ?init (capture_list spec pre)"
  let ?s = "if pre = [] then tokenObjectStart else tokenObjectComma"
  let ?itemsf = "lead ?s @ LStr (ItemsField spec) # Colon # (LBrack # commas (map lex elems) @ [RBrack])
                  @ flds tokenObjectComma post @ [RBrace]"
  let ?input = "lex (JObj (pre @ (ItemsField spec, JArr elems) # post))"
  have input: "?input = LBrace # flds tokenObjectStart pre @ ?itemsf"
    by (simp add: lex_JObj_flds flds_append del: lex.simps) (simp add: lead_def)
  let ?d1 = "\<lparr>buf = flds tokenObjectStart pre @ ?itemsf, err = None,
               tokenState = tokenObjectStart, tokenStack = [tokenTopValue]\<rparr>"
  have "Token (NewDecoder ?input) = (Inr (Delim CHR ''{''), ?d1)"
    using Token_open_brace [of tokenTopValue "NewDecoder ?input" "flds tokenObjectStart pre @ ?itemsf"]
    unfolding input by (simp add: NewDecoder_def)
  then have ex: "expect (NewDecoder ?input) (Delim CHR ''{'') = (None, ?d1)"
    by (simp add: expect_def)
  have ok0: "md_ok ?init" by (simp add: md_ok_def initial_metadata_def snapshotKey_def)
  have "scanFields spec ?init ?d1 = scanFields spec ?md (?d1\<lparr>buf := ?itemsf, tokenState := ?s\<rparr>)"
    using assms ok0
    by (intro scanFields_pre [where s = tokenObjectStart and md = ?init and pre = pre and tail = ?itemsf])
       simp_all
  also have "\<dots> = (map (\<lambda>e. SendItem (enrich (item_of e) ?md)) elems
              @ [Print ''decoder goroutine ended normally''], ?md)"
    using assms
    by (intro scanFields_items [of ?s _ _ _ "flds tokenObjectComma post @ [RBrace]"]) auto
  finally show ?thesis by (simp add: producer_body_def ex del: lex.simps)
qed

lemma item_ok_simps:
  "item_ok md (SendItem v) = (fmlookup v ''metadata'' = Some (VMap md))"
  "item_ok md (SendError e)" "item_ok md (Print s)" "item_ok md (Panic s)"
  "\<not> item_ok md CloseItems" "\<not> item_ok md CloseErrors"
  by (simp_all add: item_ok_def)

lemma enrich_metadata:
  "''metadata'' |\<notin>| fmdom md \<Longrightarrow> fmlookup (enrich m md) ''metadata'' = Some (VMap md)"
  by (simp add: enrich_def)

lemma sent_items_append: "sent_items (xs @ ys) = sent_items xs @ sent_items ys"
  by (induction xs rule: sent_items.induct) auto

lemma sent_errors_append: "sent_errors (xs @ ys) = sent_errors xs @ sent_errors ys"
  by (induction xs rule: sent_errors.induct) auto

lemma Decode_map_error_nil: "Decode_map d = ((Some e, v), d1) \<Longrightarrow> v = None"
  by (auto simp: Decode_map_def split: prod.splits sum.splits gval.splits)

lemma decodeItems_loop_events:
  assumes "''metadata'' |\<notin>| fmdom md" "decodeItems_loop md d = (evs, r, d2)"
  shows "list_all (item_ok md) evs \<and> r \<noteq> Return (Some e)
         \<and> (r = Return None \<longrightarrow> \<not> More d2 \<and> sent_errors evs = [])
         \<and> length (sent_errors evs) \<le> 1"
  using assms
proof (induction md d arbitrary: evs r d2 rule: decodeItems_loop.induct)
  case (1 md d)
  show ?case
  proof (cases "More d")
    case False
    with "1.prems" show ?thesis by (auto simp: decodeItems_loop.simps [of md d])
  next
    case True
    obtain x v d1 where dm: "Decode_map d = ((x, v), d1)" by (metis prod.exhaust)
    show ?thesis
    proof (cases v)
      case None
      with "1.prems" True dm show ?thesis
        by (auto simp: decodeItems_loop.simps [of md d] item_ok_simps split: option.splits)
    next
      case (Some m)
      obtain evs1 r1 d3 where rec: "decodeItems_loop md d1 = (evs1, r1, d3)"
        by (metis prod.exhaust)
      have x: "x = None" using Decode_map_error_nil [of d _ v d1] dm Some by (cases x) auto
      have IH: "list_all (item_ok md) evs1 \<and> r1 \<noteq> Return (Some e)
                \<and> (r1 = Return None \<longrightarrow> \<not> More d3 \<and> sent_errors evs1 = [])
                \<and> length (sent_errors evs1) \<le> 1"
        using "1.IH" [OF _ dm [symmetric] refl refl Some "1.prems"(1) rec] True by simp
      from "1.prems" True dm Some rec
      have "evs = (case x of None \<Rightarrow> [] | Some x \<Rightarrow> [SendError (Wrap ''decodeItems'' (Json x))])
                  @ SendItem (enrich m md) # evs1" "r = r1" "d2 = d3"
        by (simp_all add: decodeItems_loop.simps [of md d])
      with IH "1.prems"(1) x show ?thesis
        by (auto simp: item_ok_simps enrich_metadata split: option.splits)
    qed
  qed
qed

lemma decodeItems_events:
  assumes "''metadata'' |\<notin>| fmdom md" "decodeItems d md = (evs, r, d2)"
  shows "list_all (item_ok md) evs
         \<and> (r = Return None \<longrightarrow> \<not> More d2 \<and> sent_errors evs = [])
         \<and> (r = Return (Some e) \<longrightarrow> evs = [])
         \<and> length (sent_errors evs) \<le> 1"
proof (cases "expect d (Delim CHR ''['')")
  case (Pair x d1)
  show ?thesis
  proof (cases x)
    case None
    with Pair assms have "decodeItems_loop md d1 = (evs, r, d2)"
      by (simp add: decodeItems_def)
    from decodeItems_loop_events [OF assms(1) this, of e] show ?thesis by simp
  next
    case (Some err)
    with Pair assms show ?thesis by (auto simp: decodeItems_def)
  qed
qed

lemma addMetadata_dom:
  "addMetadata md key v = AddOk md1 \<Longrightarrow> fmdom md1 = finsert snapshotKey (fmdom md)"
  by (auto simp: addMetadata_def Let_def split: token.splits gval.splits option.splits if_splits)

lemma scanFields_events:
  assumes "''metadata'' |\<notin>| fmdom md" "scanFields spec md d = (evs, md')"
  shows "list_all (item_ok md') evs \<and> length (sent_errors evs) \<le> 1"
  using assms
proof (induction spec md d arbitrary: evs md' rule: scanFields.induct)
  case (1 spec md d)
  note nomd = "1.prems"(1) and run = "1.prems"(2)
  show ?case
  proof (cases "More d")
    case False
    with run show ?thesis by (auto simp: scanFields.simps [of spec md d] item_ok_simps)
  next
    case more: True
    obtain r d1 where tk: "Token d = (r, d1)" by (metis prod.exhaust)
    show ?thesis
    proof (cases r)
      case (Inl e)
      with run more tk show ?thesis
        by (auto simp: scanFields.simps [of spec md d] item_ok_simps)
    next
      case (Inr t)
      show ?thesis
      proof (cases "asString t")
        case None
        obtain evs1 md1 where rec: "scanFields spec md d1 = (evs1, md1)" by (metis prod.exhaust)
        have "list_all (item_ok md1) evs1 \<and> length (sent_errors evs1) \<le> 1"
          using "1.IH"(1) [OF _ tk [symmetric] Inr None nomd rec] more by simp
        moreover from run more tk Inr None rec
        have "evs = Print ''token is not of type string'' # evs1" "md' = md1"
          by (simp_all add: scanFields.simps [of spec md d])
        ultimately show ?thesis by (simp add: item_ok_simps)
      next
        case (Some f)
        show ?thesis
        proof (cases "f = ItemsField spec")
          case True
          obtain evs1 r1 d2 where di: "decodeItems d1 md = (evs1, r1, d2)"
            by (metis prod.exhaust)
          have ev1: "list_all (item_ok md) evs1" "length (sent_errors evs1) \<le> 1"
            and nm: "r1 = Return None \<longrightarrow> \<not> More d2 \<and> sent_errors evs1 = []"
            and er: "\<And>e. r1 = Return (Some e) \<Longrightarrow> evs1 = []"
            using decodeItems_events [OF nomd di] by simp_all
          show ?thesis
          proof (cases r1)
            case Panics
            with run more tk Inr Some True di ev1 show ?thesis
              by (simp add: scanFields.simps [of spec md d])
          next
            case (Return x)
            show ?thesis
            proof (cases x)
              case None
              with nm Return have "\<not> More d2" and noerr: "sent_errors evs1 = []" by simp_all
              then have "scanFields spec md d2 = ([Print ''decoder goroutine ended normally''], md)"
                by (simp add: scanFields.simps [of spec md d2])
              with run more tk Inr Some True di ev1 Return None noerr show ?thesis
                by (auto simp: scanFields.simps [of spec md d] item_ok_simps sent_errors_append)
            next
              case (Some e)
              with run more tk Inr \<open>asString t = Some f\<close> True di ev1 Return er [of e]
              show ?thesis
                by (auto simp: scanFields.simps [of spec md d] item_ok_simps)
            qed
          qed
        next
          case notitems: False
          show ?thesis
          proof (cases "fmlookup (Fields spec) f")
            case None
            obtain x d2 where sk: "skip d1 = (x, d2)" by (metis prod.exhaust)
            show ?thesis
            proof (cases x)
              case skipped: None
              from run more tk Inr Some notitems None sk skipped
              have "scanFields spec md d2 = (evs, md')"
                by (simp add: scanFields.simps [of spec md d])
              then show ?thesis
                using "1.IH"(3) [OF _ tk [symmetric] Inr Some notitems None sk [symmetric] skipped nomd]
                  more by simp
            next
              case (Some e)
              with run more tk Inr \<open>asString t = Some f\<close> notitems None sk show ?thesis
                by (auto simp: scanFields.simps [of spec md d] item_ok_simps)
            qed
          next
            case field: (Some tfv)
            obtain r2 d2 where tk2: "Token d1 = (r2, d2)" by (metis prod.exhaust)
            show ?thesis
            proof (cases r2)
              case (Inl e)
              with run more tk Inr Some notitems field tk2 show ?thesis
                by (auto simp: scanFields.simps [of spec md d] item_ok_simps)
            next
              case val: (Inr v)
              show ?thesis
              proof (cases "isDelim v")
                case True
                with run more tk Inr Some notitems field tk2 val show ?thesis
                  by (auto simp: scanFields.simps [of spec md d] item_ok_simps)
              next
                case nodelim: False
                show ?thesis
                proof (cases "addMetadata md (if tfv = [] then f else tfv) v")
                  case (AddOk md1)
                  from run more tk Inr Some notitems field tk2 val nodelim AddOk
                  have rec: "scanFields spec md1 d2 = (evs, md')"
                    by (simp add: scanFields.simps [of spec md d])
                  have "''metadata'' |\<notin>| fmdom md1"
                    using addMetadata_dom [OF AddOk] nomd by (simp add: snapshotKey_def)
                  then show ?thesis
                    using "1.IH"(4) [OF _ tk [symmetric] Inr Some notitems field tk2 [symmetric]
                        val nodelim AddOk _ rec] more by simp
                next
                  case (AddErr e md1)
                  with run more tk Inr Some notitems field tk2 val nodelim show ?thesis
                    by (auto simp: scanFields.simps [of spec md d] item_ok_simps)
                next
                  case AddPanic
                  with run more tk Inr Some notitems field tk2 val nodelim show ?thesis
                    by (auto simp: scanFields.simps [of spec md d] item_ok_simps)
                qed
              qed
            qed
          qed
        qed
      qed
    qed
  qed
qed

lemma Token_value_not_allowed: "\<not> tokenValueAllowed d \<Longrightarrow> Token_value d = (Inl SyntaxError, d)"
  by (simp add: Token_value_def tokenError_def)

lemma Token_not_name_start:
  assumes "tokenState d = tokenObjectStart" "buf d = l # rest" "\<not> is_LStr l"
    "l \<noteq> RBrack" "l \<noteq> RBrace"
  shows "Token d = (Inl SyntaxError, d)"
  using assms
  by (subst Token.simps)
     (cases l; simp add: tokenError_def tokenValueAllowed_def Token_value_not_allowed)

lemma Token_not_name_key:
  assumes "tokenState d = tokenObjectKey" "buf d = l # rest" "\<not> is_LStr l"
  shows "Token d = (Inl SyntaxError, d)"
  using assms
  by (subst Token.simps)
     (cases l; simp add: tokenError_def tokenValueAllowed_def Token_value_not_allowed)

lemma Token_not_name:
  assumes "s = tokenObjectStart \<or> s = tokenObjectComma" "tokenState d = s"
    and "buf d = lead s @ l # rest" "\<not> is_LStr l"
    and "s = tokenObjectStart \<longrightarrow> l \<noteq> RBrack \<and> l \<noteq> RBrace"
  shows "\<exists>d1. Token d = (Inl SyntaxError, d1)"
proof (cases "s = tokenObjectStart")
  case True
  with assms show ?thesis by (auto simp: lead_def dest: Token_not_name_start)
next
  case False
  with assms have s: "s = tokenObjectComma" by simp
  let ?d1 = "d\<lparr>buf := l # rest, tokenState := tokenObjectKey\<rparr>"
  have "Token d = Token ?d1"
    using assms s by (subst Token.simps) (simp add: lead_def)
  moreover have "Token ?d1 = (Inl SyntaxError, ?d1)"
    using assms by (intro Token_not_name_key) simp_all
  ultimately show ?thesis by simp
qed

lemma scanFields_not_name:
  assumes "s = tokenObjectStart \<or> s = tokenObjectComma" "tokenState d = s"
    and "buf d = lead s @ l # rest" "\<not> is_LStr l"
    and "s = tokenObjectStart \<longrightarrow> l \<noteq> RBrack \<and> l \<noteq> RBrace"
  shows "scanFields spec md d = ([SendError (Wrap ''DecodeAndSplitItems'' (Json SyntaxError))], md)"
proof -
  obtain d1 where tk: "Token d = (Inl SyntaxError, d1)"
    using Token_not_name [OF assms] by blast
  have "More d"
    using assms by (cases "s = tokenObjectComma") (auto simp: lead_def More_Cons)
  then show ?thesis by (subst scanFields.simps) (simp add: tk)
qed

lemma expect_open_brace:
  "expect (NewDecoder (LBrace # rest)) (Delim CHR ''{'')
   = (None, \<lparr>buf = rest, err = None, tokenState = tokenObjectStart, tokenStack = [tokenTopValue]\<rparr>)"
  using Token_open_brace [of tokenTopValue "NewDecoder (LBrace # rest)" rest]
  by (simp add: expect_def NewDecoder_def)

lemma md_ok_initial: "md_ok (initial_metadata now)"
  by (simp add: md_ok_def initial_metadata_def snapshotKey_def)

lemma producer_body_prefix:
  assumes "scannable spec pre"
  shows "producer_body spec (initial_metadata now) (LBrace # flds tokenObjectStart pre @ tail)
         = scanFields spec (with_snapshot (initial_metadata now) (capture_list spec pre))
             \<lparr>buf = tail, err = None,
              tokenState = (if pre = [] then tokenObjectStart else tokenObjectComma),
              tokenStack = [tokenTopValue]\<rparr>"
proof -
  let ?d1 = "\<lparr>buf = flds tokenObjectStart pre @ tail, err = None,
               tokenState = tokenObjectStart, tokenStack = [tokenTopValue]\<rparr>"
  have "scanFields spec (initial_metadata now) ?d1
        = scanFields spec (with_snapshot (initial_metadata now) (capture_list spec pre))
            (?d1\<lparr>buf := tail, tokenState := (if pre = [] then tokenObjectStart else tokenObjectComma)\<rparr>)"
    using assms md_ok_initial
    by (intro scanFields_pre [where s = tokenObjectStart and pre = pre and tail = tail]) simp_all
  then show ?thesis by (simp add: producer_body_def expect_open_brace)
qed

lemma scanFields_field_not_string:
  assumes "s = tokenObjectStart \<or> s = tokenObjectComma" "tokenState d = s" "err d = None"
    and "buf d = lead s @ LStr k # Colon # lex v @ rest"
    and "fmlookup (Fields spec) k = Some tfv" "k \<noteq> ItemsField spec" "\<not> is_JStr v"
  shows "\<exists>md'. scanFields spec md d = ([SendError (field_type_error k v)], md')"
proof -
  let ?d1 = "d\<lparr>buf := Colon # lex v @ rest, tokenState := tokenObjectColon\<rparr>"
  have more: "More d" using More_field [of d s k] assms by simp
  have tok: "Token d = (Inr (TVal (VStr k)), ?d1)"
    using assms by (intro Token_field_name [of s]) auto
  have "(\<exists>c d2. Token ?d1 = (Inr (Delim c), d2) \<and> field_type_error k v = DelimValue k (Delim c))
      \<or> (\<exists>x d2. Token ?d1 = (Inr (TVal x), d2) \<and> (\<forall>s. x \<noteq> VStr s)
             \<and> field_type_error k v = Wrap ''DecodeAndSplitItems'' (NotAString (TVal x)))"
  proof (cases v)
    case (JArr vs)
    then show ?thesis
      using assms Token_open_bracket [of tokenObjectColon ?d1 "commas (map lex vs) @ RBrack # rest"]
      by (simp add: field_type_error_def)
  next
    case (JObj kvs)
    then show ?thesis
      using assms Token_open_brace [of tokenObjectColon ?d1
          "commas (map member (map (map_prod (\<lambda>k. k) lex) kvs)) @ RBrace # rest"]
      by (simp add: field_type_error_def)
  next
    case JNull
    then show ?thesis
      using assms Token_scalar [of tokenObjectColon ?d1 LNull rest VNil]
      by (simp add: field_type_error_def)
  next
    case (JBool b)
    then show ?thesis
      using assms Token_scalar [of tokenObjectColon ?d1 "if b then LTrue else LFalse" rest "VBool b"]
      by (simp add: field_type_error_def)
  next
    case (JNum n)
    then show ?thesis
      using assms Token_scalar [of tokenObjectColon ?d1 "LNum n" rest "VNum n"]
      by (simp add: field_type_error_def)
  next
    case (JStr x)
    with assms show ?thesis by simp
  qed
  then show ?thesis
  proof (elim disjE exE conjE)
    fix c d2
    assume "Token ?d1 = (Inr (Delim c), d2)" "field_type_error k v = DelimValue k (Delim c)"
    then show ?thesis
      using assms by (subst scanFields.simps) (simp add: more tok)
  next
    fix x d2
    assume tk2: "Token ?d1 = (Inr (TVal x), d2)" and ns: "\<forall>s. x \<noteq> VStr s"
      and fte: "field_type_error k v = Wrap ''DecodeAndSplitItems'' (NotAString (TVal x))"
    have "\<exists>md1. addMetadata md (if tfv = [] then k else tfv) (TVal x) = AddErr (NotAString (TVal x)) md1"
      using ns by (cases x) (simp_all add: addMetadata_def Let_def)
    then obtain md1 where
      "addMetadata md (if tfv = [] then k else tfv) (TVal x) = AddErr (NotAString (TVal x)) md1"
      by blast
    then show ?thesis
      using assms by (subst scanFields.simps) (simp add: more tok tk2 fte)
  qed
qed













lemma producer_document:
  assumes "scannable spec pre" "list_all is_JObj elems"
  shows "producer spec now (document spec pre elems post)
         = map (\<lambda>e. SendItem (enrich (item_of e)
                        (with_snapshot (initial_metadata now) (capture_list spec pre)))) elems
             @ [Print ''decoder goroutine ended normally'', CloseErrors, CloseItems]"
  using producer_body_document [OF assms, of now post]
  by (simp add: producer_def document_def del: lex.simps)

lemma sent_items_map: "sent_items (map SendItem vs) = vs"
  by (induction vs) auto

lemma sent_items_document:
  assumes "scannable spec pre" "list_all is_JObj elems"
  shows "sent_items (producer spec now (document spec pre elems post))
         = map (\<lambda>e. enrich (item_of e)
                  (with_snapshot (initial_metadata now) (capture_list spec pre))) elems"
proof -
  have "map (\<lambda>e. SendItem (enrich (item_of e) md)) elems
        = map SendItem (map (\<lambda>e. enrich (item_of e) md) elems)" for md
    by simp
  then show ?thesis
    unfolding producer_document [OF assms]
    by (simp only: sent_items_append sent_items_map) simp
qed


lemma store_lookup:
  "fmlookup (store cl m) k = (case map_of (rev cl) k of Some v \<Rightarrow> Some v | None \<Rightarrow> fmlookup m k)"
  by (induction cl arbitrary: m) (auto simp: store_Cons store_def map_add_def split: option.splits)

lemma store_dom: "fmdom' (store cl m) = fst ` set cl \<union> fmdom' m"
  by (induction cl arbitrary: m) (auto simp: store_Cons store_def)

lemma snapshot_of_initial: "snapshot_of (initial_metadata now) = fmempty"
  by (simp add: snapshot_of_def initial_metadata_def snapshotKey_def)

lemma metadata_dom:
  "fmdom' (with_snapshot (initial_metadata now) cl)
   = {''event_type'', ''event_source'', ''ingest_time''}
     \<union> (if cl = [] then {} else {''config_snapshot''})"
  by (auto simp: with_snapshot_def initial_metadata_def snapshotKey_def)

lemma metadata_provenance:
  "fmlookup (with_snapshot (initial_metadata now) cl) ''event_type'' = Some (VStr ''config_snapshot'')"
  "fmlookup (with_snapshot (initial_metadata now) cl) ''event_source'' = Some (VStr ''something_useful'')"
  "fmlookup (with_snapshot (initial_metadata now) cl) ''ingest_time'' = Some (VStr now)"
  by (simp_all add: with_snapshot_def initial_metadata_def snapshotKey_def)

lemma metadata_snapshot:
  "cl \<noteq> [] \<Longrightarrow> fmlookup (with_snapshot (initial_metadata now) cl) ''config_snapshot''
                = Some (VStrMap (store cl fmempty))"
  by (simp add: with_snapshot_def snapshot_of_initial snapshotKey_def)

lemma enrich_lookup:
  "fmlookup (enrich v md) k
   = (if k |\<in>| fmdom md then fmlookup md k
      else if k = ''metadata'' then Some (VMap md) else fmlookup v k)"
  by (simp add: enrich_def)

lemma metadata_no_metadata_key:
  "''metadata'' |\<notin>| fmdom (with_snapshot (initial_metadata now) cl)"
  by (simp add: with_snapshot_def initial_metadata_def snapshotKey_def)

lemma sent_items_mem: "r \<in> set (sent_items evs) \<Longrightarrow> SendItem r \<in> set evs"
  by (induction evs rule: sent_items.induct) auto


lemma producer_body_events:
  "list_all (item_ok (snd (producer_body spec (initial_metadata now) r)))
     (fst (producer_body spec (initial_metadata now) r))
   \<and> length (sent_errors (fst (producer_body spec (initial_metadata now) r))) \<le> 1"
proof (cases "expect (NewDecoder r) (Delim CHR ''{'')")
  case (Pair x d1)
  show ?thesis
  proof (cases x)
    case None
    obtain evs md' where run: "scanFields spec (initial_metadata now) d1 = (evs, md')"
      by (metis prod.exhaust)
    have "''metadata'' |\<notin>| fmdom (initial_metadata now)"
      by (simp add: initial_metadata_def)
    from scanFields_events [OF this run] show ?thesis
      by (simp add: producer_body_def Pair None run)
  next
    case (Some e)
    then show ?thesis by (simp add: producer_body_def Pair item_ok_simps)
  qed
qed

lemma example_scannable: "scannable main_spec example_pre"
  by code_simp

lemma example_objects: "list_all is_JObj example_elems"
  by code_simp

lemma example_document: "document main_spec example_pre example_elems [] = lex example_doc"
  by code_simp

lemma example_items:
  "sent_items (producer main_spec ''T'' (lex example_doc))
   = [enrich (item_of (JObj [(''resourceId'', JStr ''r1'')])) example_metadata,
      enrich (item_of (JObj [(''resourceId'', JStr ''r2'')])) example_metadata]"
  by code_simp


lemma example_capture_list:
  "capture_list main_spec example_pre = [(''fileVersion'', ''1.0''), (''configSnapshotId'', ''abc'')]"
  by code_simp

lemma example_length: "length (sent_items (producer main_spec ''T'' (lex example_doc))) = 2"
  by (simp add: example_items)


section \<open>Field names on every input\<close>

text \<open>
  In key position \<^verbatim>\<open>Token\<close> returns a string or an error, and after a captured value or a
  skipped value the decoder is in key position again.  So the branch of
  \<^verbatim>\<open>DecodeAndSplitItems\<close> for a token that is not a string is never taken, whatever the
  input is.
\<close>

lemma Decode_value_state:
  assumes "Decode_value d = (Inr x, d1)" "tokenState d = tokenObjectValue"
  shows "tokenState d1 = tokenObjectComma \<and> tokenStack d1 = tokenStack d"
  using assms
  by (auto simp: Decode_value_def tokenPrepareForDecode_def tokenValueEnd_def
      simp del: scan.simps
      split: option.splits if_splits list.splits sum.splits prod.splits)

lemma Token_Nil: "buf d = [] \<Longrightarrow> Token d = (Inl EOF, d)"
  by (subst Token.simps) simp

lemma Token_key_pos_key:
  assumes "tokenState d = tokenObjectKey \<or> tokenState d = tokenObjectStart"
    "Token d = (Inr t, d1)" "More d"
  shows "(\<exists>k. t = TVal (VStr k)) \<and> tokenState d1 = tokenObjectColon"
  using assms
  apply (subst (asm) Token.simps)
  apply (auto simp: More_def peek_def tokenError_def tokenValueAllowed_def Token_value_def
      split: list.splits lexeme.splits if_splits option.splits)
  done

lemma Token_key_pos:
  assumes "key_pos d" "More d" "Token d = (Inr t, d1)"
  shows "(\<exists>k. t = TVal (VStr k)) \<and> tokenState d1 = tokenObjectColon"
proof (cases "tokenState d = tokenObjectStart")
  case True
  with assms show ?thesis using Token_key_pos_key [of d t d1] by simp
next
  case False
  with assms have st: "tokenState d = tokenObjectComma" by (simp add: key_pos_def)
  from assms(2) obtain c cs where buf: "buf d = c # cs" "c \<noteq> RBrack" "c \<noteq> RBrace"
    by (auto simp: More_def peek_def split: list.splits)
  show ?thesis
  proof (cases "c = Comma")
    case True
    let ?d1 = "d\<lparr>buf := cs, tokenState := tokenObjectKey\<rparr>"
    have eq: "Token d = Token ?d1"
      using st buf True by (subst Token.simps) simp
    have nonstr: "\<not> is_LStr l \<Longrightarrow> buf ?d1 = l # rest \<Longrightarrow> Token ?d1 = (Inl SyntaxError, ?d1)"
      for l rest
      by (rule Token_not_name_key) simp_all
    show ?thesis
    proof (cases cs)
      case Nil
      then have "Token ?d1 = (Inl EOF, ?d1)" by (intro Token_Nil) simp
      with eq assms(3) show ?thesis by simp
    next
      case (Cons l rest)
      show ?thesis
      proof (cases "is_LStr l")
        case True
        then obtain k where "l = LStr k" by (cases l) auto
        with Cons have "Token ?d1 = (case err d of Some e \<Rightarrow> (Inl e, ?d1)
            | None \<Rightarrow> (Inr (TVal (VStr k)), ?d1\<lparr>buf := rest, tokenState := tokenObjectColon\<rparr>))"
          by (subst Token.simps) simp
        with eq assms(3) show ?thesis by (auto split: option.splits)
      next
        case False
        with eq assms(3) Cons nonstr [of l rest] show ?thesis by simp
      qed
    qed
  next
    case False
    with st buf assms(3) show ?thesis
      apply (subst (asm) Token.simps)
      apply (cases c)
      apply (auto simp: tokenError_def tokenValueAllowed_def Token_value_def)
      done
  qed
qed

lemma Decode_value_stack:
  assumes "Decode_value d = (Inr x, d1)"
  shows "tokenStack d1 = tokenStack d"
  using assms
  by (auto simp: Decode_value_def tokenPrepareForDecode_def tokenValueEnd_def
      simp del: scan.simps
      split: option.splits if_splits list.splits sum.splits prod.splits)

lemma Token_value_effect:
  assumes "Token_value d = (Inr t, d1)"
  shows "token_effect d t d1"
proof -
  from assms obtain x where t: "t = TVal x" and dv: "Decode_value d = (Inr x, d1)"
    and al: "tokenValueAllowed d"
    by (auto simp: Token_value_def tokenError_def split: if_splits prod.splits sum.splits)
  from al have "in_value d \<longrightarrow> tokenState d = tokenObjectValue"
    by (auto simp: in_value_def tokenValueAllowed_def)
  with dv t show ?thesis
    using Decode_value_stack [OF dv] Decode_value_state [OF dv]
    by (simp add: token_effect_def)
qed

lemma Token_effect: "Token d = (Inr t, d1) \<Longrightarrow> token_effect d t d1"
proof (induction "length (buf d)" arbitrary: d rule: less_induct)
  case less
  show ?case
  proof (cases "buf d")
    case Nil
    with less.prems show ?thesis by (simp add: Token_Nil)
  next
    case (Cons c cs)
    have rec: "Token e = (Inr t, d1) \<Longrightarrow> buf e = cs \<Longrightarrow> token_effect e t d1" for e
      using less.hyps [of e] Cons by simp
    have via: "token_effect e t d1 \<Longrightarrow> tokenStack e = tokenStack d
               \<Longrightarrow> in_value d = in_value e \<Longrightarrow> token_effect d t d1" for e
      by (auto simp: token_effect_def split: token.splits if_splits)
    have val: "Token_value d = (Inr t, d1) \<Longrightarrow> ?thesis"
      by (rule Token_value_effect)
    show ?thesis
    proof (cases c)
      case LBrace
      with less.prems Cons show ?thesis
        by (subst (asm) Token.simps)
           (auto simp: tokenError_def token_effect_def in_value_def tokenValueAllowed_def
             split: if_splits)
    next
      case RBrace
      with less.prems Cons show ?thesis
        by (subst (asm) Token.simps)
           (auto simp: tokenError_def token_effect_def in_value_def tokenValueEnd_def
             split: if_splits list.splits)
    next
      case LBrack
      with less.prems Cons show ?thesis
        by (subst (asm) Token.simps)
           (auto simp: tokenError_def token_effect_def in_value_def tokenValueAllowed_def
             split: if_splits)
    next
      case RBrack
      with less.prems Cons show ?thesis
        by (subst (asm) Token.simps)
           (auto simp: tokenError_def token_effect_def in_value_def tokenValueEnd_def
             split: if_splits list.splits)
    next
      case Colon
      let ?e = "d\<lparr>buf := cs, tokenState := tokenObjectValue\<rparr>"
      from less.prems Cons Colon have st: "tokenState d = tokenObjectColon"
        and tk: "Token ?e = (Inr t, d1)"
        by (subst (asm) Token.simps, simp add: tokenError_def split: if_splits)+
      from rec [OF tk] have "token_effect ?e t d1" by simp
      then show ?thesis by (rule via) (simp_all add: in_value_def st)
    next
      case Comma
      from less.prems Cons Comma
      have "\<exists>s'. (tokenState d = tokenArrayComma \<and> s' = tokenArrayValue
                  \<or> tokenState d = tokenObjectComma \<and> s' = tokenObjectKey)
               \<and> Token (d\<lparr>buf := cs, tokenState := s'\<rparr>) = (Inr t, d1)"
        by (subst (asm) Token.simps) (auto simp: tokenError_def split: if_splits)
      then obtain s' where s': "tokenState d = tokenArrayComma \<and> s' = tokenArrayValue
                  \<or> tokenState d = tokenObjectComma \<and> s' = tokenObjectKey"
        and tk: "Token (d\<lparr>buf := cs, tokenState := s'\<rparr>) = (Inr t, d1)" by blast
      from rec [OF tk] have "token_effect (d\<lparr>buf := cs, tokenState := s'\<rparr>) t d1" by simp
      then show ?thesis by (rule via) (use s' in \<open>auto simp: in_value_def\<close>)
    next
      case (LStr k)
      show ?thesis
      proof (cases "tokenState d = tokenObjectStart \<or> tokenState d = tokenObjectKey")
        case True
        with less.prems Cons LStr show ?thesis
          by (subst (asm) Token.simps)
             (auto simp: token_effect_def in_value_def split: option.splits)
      next
        case False
        with less.prems Cons LStr have "Token_value d = (Inr t, d1)"
          by (subst (asm) Token.simps) auto
        then show ?thesis by (rule val)
      qed
    next
      case (LNum n)
      with less.prems Cons have "Token_value d = (Inr t, d1)"
        by (subst (asm) Token.simps) auto
      then show ?thesis by (rule val)
    next
      case LTrue
      with less.prems Cons have "Token_value d = (Inr t, d1)"
        by (subst (asm) Token.simps) auto
      then show ?thesis by (rule val)
    next
      case LFalse
      with less.prems Cons have "Token_value d = (Inr t, d1)"
        by (subst (asm) Token.simps) auto
      then show ?thesis by (rule val)
    next
      case LNull
      with less.prems Cons have "Token_value d = (Inr t, d1)"
        by (subst (asm) Token.simps) auto
      then show ?thesis by (rule val)
    next
      case LBad
      with less.prems Cons have "Token_value d = (Inr t, d1)"
        by (subst (asm) Token.simps) auto
      then show ?thesis by (rule val)
    qed
  qed
qed

lemma skip_loop_state:
  assumes "skip_loop n d = (None, d')" "skip_inv n d"
  shows "tokenState d' = tokenObjectComma"
  using assms
proof (induction n d rule: skip_loop.induct)
  case (1 n d)
  obtain r d1 where tk: "Token d = (r, d1)" by (metis prod.exhaust)
  show ?case
  proof (cases r)
    case (Inl e)
    with "1.prems" tk show ?thesis by (simp add: skip_loop.simps [of n d])
  next
    case (Inr t)
    define n1 where "n1 = (if t = Delim CHR ''['' \<or> t = Delim CHR ''{'' then n + 1
                     else if t = Delim CHR '']'' \<or> t = Delim CHR ''}'' then n - 1
                     else n)"
    have eff: "token_effect d t d1" using tk Inr by (intro Token_effect) simp
    have step: "(n1 = 0 \<and> tokenState d1 = tokenObjectComma) \<or> (n1 \<noteq> 0 \<and> skip_inv n1 d1)"
    proof (cases t)
      case (TVal x)
      with eff "1.prems"(2) show ?thesis
        by (auto simp: token_effect_def skip_inv_def n1_def split: if_splits)
    next
      case (Delim c)
      show ?thesis
      proof (cases "c = CHR ''['' \<or> c = CHR ''{''")
        case True
        with Delim eff have ne: "tokenStack d1 \<noteq> []" and tl: "tl (tokenStack d1) = tokenStack d"
          and hd: "in_value d \<longrightarrow> hd (tokenStack d1) = tokenObjectValue"
          by (auto simp: token_effect_def)
        from ne tl obtain s where stk: "tokenStack d1 = s # tokenStack d"
          by (cases "tokenStack d1") auto
        have n1: "n1 = n + 1" using True Delim by (auto simp: n1_def)
        show ?thesis
        proof (cases "n = 0")
          case True
          with "1.prems"(2) hd stk n1 show ?thesis by (simp add: skip_inv_def)
        next
          case False
          with "1.prems"(2) have "0 < n" "nat (n - 1) < length (tokenStack d)"
            "tokenStack d ! nat (n - 1) = tokenObjectValue"
            by (simp_all add: skip_inv_def)
          moreover from \<open>0 < n\<close> have "nat n = Suc (nat (n - 1))" by simp
          ultimately show ?thesis using stk n1 by (simp add: skip_inv_def)
        qed
      next
        case False
        with Delim eff have cl: "c = CHR '']'' \<or> c = CHR ''}''" and nv: "\<not> in_value d"
          and ne: "tokenStack d \<noteq> []" and tl: "tl (tokenStack d) = tokenStack d1"
          and hd: "hd (tokenStack d) = tokenObjectValue \<longrightarrow> tokenState d1 = tokenObjectComma"
          by (auto simp: token_effect_def)
        from ne tl obtain s where stk: "tokenStack d = s # tokenStack d1"
          by (cases "tokenStack d") auto
        have n1: "n1 = n - 1" using False cl Delim by (auto simp: n1_def)
        from nv "1.prems"(2) have pos: "0 < n" "nat (n - 1) < length (tokenStack d)"
          and mark: "tokenStack d ! nat (n - 1) = tokenObjectValue"
          by (auto simp: skip_inv_def split: if_splits)
        show ?thesis
        proof (cases "n = 1")
          case True
          with mark stk hd n1 show ?thesis by simp
        next
          case False
          with pos have "1 < n" by simp
          then have "nat (n - 1) = Suc (nat (n - 1 - 1))" by simp
          with pos mark stk n1 \<open>1 < n\<close> show ?thesis by (simp add: skip_inv_def)
        qed
      qed
    qed
    show ?thesis
    proof (cases "n1 = 0")
      case True
      with "1.prems"(1) tk Inr step show ?thesis
        by (simp add: skip_loop.simps [of n d] n1_def [symmetric] Let_def)
    next
      case False
      with "1.prems"(1) tk Inr have "skip_loop n1 d1 = (None, d')"
        by (simp add: skip_loop.simps [of n d] n1_def [symmetric] Let_def)
      moreover from False step have "skip_inv n1 d1" by simp
      ultimately show ?thesis
        using "1.IH" [OF tk [symmetric] Inr n1_def False] by simp
    qed
  qed
qed

lemma skip_state:
  assumes "skip d = (None, d')" "tokenState d = tokenObjectColon"
  shows "key_pos d'"
  using skip_loop_state [of 0 d d'] assms
  by (simp add: skip_def skip_inv_def in_value_def key_pos_def)

lemma decodeItems_loop_no_print:
  assumes "decodeItems_loop md d = (evs, r, d2)"
  shows "Print s \<notin> set evs \<and> (r = Return None \<longrightarrow> \<not> More d2)"
  using assms
proof (induction md d arbitrary: evs r d2 rule: decodeItems_loop.induct)
  case (1 md d)
  show ?case
  proof (cases "More d")
    case False
    with "1.prems" show ?thesis by (auto simp: decodeItems_loop.simps [of md d])
  next
    case True
    obtain e v d1 where dm: "Decode_map d = ((e, v), d1)" by (metis prod.exhaust)
    show ?thesis
    proof (cases v)
      case None
      with "1.prems" True dm show ?thesis
        by (auto simp: decodeItems_loop.simps [of md d] Let_def split: option.splits)
    next
      case (Some m)
      obtain evs1 r1 d3 where rec: "decodeItems_loop md d1 = (evs1, r1, d3)"
        by (metis prod.exhaust)
      have "Print s \<notin> set evs1 \<and> (r1 = Return None \<longrightarrow> \<not> More d3)"
        using "1.IH" [OF _ dm [symmetric] refl refl Some rec] True by simp
      with "1.prems" True dm Some rec show ?thesis
        by (auto simp: decodeItems_loop.simps [of md d] Let_def split: option.splits)
    qed
  qed
qed

lemma decodeItems_no_print:
  assumes "decodeItems d md = (evs, r, d2)"
  shows "Print s \<notin> set evs \<and> (r = Return None \<longrightarrow> \<not> More d2)"
  using assms decodeItems_loop_no_print [of md _ evs r d2 s]
  by (auto simp: decodeItems_def split: prod.splits option.splits)

lemma scanFields_string_names:
  assumes "key_pos d"
  shows "Print ''token is not of type string'' \<notin> set (fst (scanFields spec md d))"
  using assms
proof (induction spec md d rule: scanFields.induct)
  case (1 spec md d)
  note kp = "1.prems"
  show ?case
  proof (cases "More d")
    case False
    then show ?thesis by (simp add: scanFields.simps [of spec md d])
  next
    case more: True
    obtain r d1 where tk: "Token d = (r, d1)" by (metis prod.exhaust)
    show ?thesis
    proof (cases r)
      case (Inl e)
      with more tk show ?thesis by (simp add: scanFields.simps [of spec md d])
    next
      case (Inr t)
      with Token_key_pos [OF kp more] tk obtain f where t: "t = TVal (VStr f)"
        and colon: "tokenState d1 = tokenObjectColon" by auto
      then have Some: "asString t = Some f" by simp
      show ?thesis
      proof (cases "f = ItemsField spec")
        case True
        obtain evs1 r1 d2 where di: "decodeItems d1 md = (evs1, r1, d2)"
          by (metis prod.exhaust)
        have np: "Print ''token is not of type string'' \<notin> set evs1"
          and nm: "r1 = Return None \<longrightarrow> \<not> More d2"
          using decodeItems_no_print [OF di] by simp_all
        show ?thesis
        proof (cases r1)
          case Panics
          with more tk Inr Some True di np show ?thesis
            by (simp add: scanFields.simps [of spec md d])
        next
          case (Return x)
          show ?thesis
          proof (cases x)
            case None
            with nm Return have "\<not> More d2" by simp
            then have "scanFields spec md d2 = ([Print ''decoder goroutine ended normally''], md)"
              by (simp add: scanFields.simps [of spec md d2])
            with more tk Inr Some True di np Return None show ?thesis
              by (simp add: scanFields.simps [of spec md d])
          next
            case (Some e)
            with more tk Inr \<open>asString t = Some f\<close> True di np Return show ?thesis
              by (simp add: scanFields.simps [of spec md d])
          qed
        qed
      next
        case notitems: False
        show ?thesis
        proof (cases "fmlookup (Fields spec) f")
          case None
          obtain x d2 where sk: "skip d1 = (x, d2)" by (metis prod.exhaust)
          show ?thesis
          proof (cases x)
            case skipped: None
            have "key_pos d2" using sk skipped colon by (intro skip_state [of d1]) simp_all
            then have "Print ''token is not of type string'' \<notin> set (fst (scanFields spec md d2))"
              using "1.IH"(3) [OF _ tk [symmetric] Inr Some notitems None sk [symmetric] skipped]
                more by simp
            with more tk Inr Some notitems None sk skipped show ?thesis
              by (simp add: scanFields.simps [of spec md d])
          next
            case (Some e)
            with more tk Inr \<open>asString t = Some f\<close> notitems None sk show ?thesis
              by (simp add: scanFields.simps [of spec md d])
          qed
        next
          case field: (Some tfv)
          obtain r2 d2 where tk2: "Token d1 = (r2, d2)" by (metis prod.exhaust)
          show ?thesis
          proof (cases r2)
            case (Inl e)
            with more tk Inr Some notitems field tk2 show ?thesis
              by (simp add: scanFields.simps [of spec md d])
          next
            case val: (Inr v)
            show ?thesis
            proof (cases "isDelim v")
              case True
              with more tk Inr Some notitems field tk2 val show ?thesis
                by (simp add: scanFields.simps [of spec md d])
            next
              case nodelim: False
              have "token_effect d1 v d2" using tk2 val by (intro Token_effect) simp
              with nodelim colon have kp2: "key_pos d2"
                by (cases v) (simp_all add: token_effect_def in_value_def key_pos_def)
              show ?thesis
              proof (cases "addMetadata md (if tfv = [] then f else tfv) v")
                case (AddOk md1)
                have "Print ''token is not of type string'' \<notin> set (fst (scanFields spec md1 d2))"
                  using "1.IH"(4) [OF _ tk [symmetric] Inr Some notitems field tk2 [symmetric]
                      val nodelim AddOk kp2] more by simp
                with more tk Inr Some notitems field tk2 val nodelim AddOk show ?thesis
                  by (simp add: scanFields.simps [of spec md d])
              next
                case (AddErr e md1)
                with more tk Inr Some notitems field tk2 val nodelim show ?thesis
                  by (simp add: scanFields.simps [of spec md d])
              next
                case AddPanic
                with more tk Inr Some notitems field tk2 val nodelim show ?thesis
                  by (simp add: scanFields.simps [of spec md d])
              qed
            qed
          qed
        qed
      qed
    qed
  qed
qed

lemma expect_open_brace_state:
  assumes "expect d (Delim CHR ''{'') = (None, d1)"
  shows "key_pos d1"
proof -
  from assms have "Token d = (Inr (Delim CHR ''{''), d1)"
    by (auto simp: expect_def split: prod.splits sum.splits if_splits)
  then have "token_effect d (Delim CHR ''{'') d1" by (rule Token_effect)
  then show ?thesis by (simp add: token_effect_def key_pos_def)
qed

theorem producer_string_names:
  "Print ''token is not of type string'' \<notin> set (producer spec now r)"
proof (cases "expect (NewDecoder r) (Delim CHR ''{'')")
  case (Pair x d1)
  show ?thesis
  proof (cases x)
    case None
    with Pair have "key_pos d1" by (intro expect_open_brace_state [of "NewDecoder r"]) simp
    from scanFields_string_names [OF this] Pair None show ?thesis
      by (simp add: producer_def producer_body_def)
  next
    case (Some e)
    with Pair show ?thesis by (simp add: producer_def producer_body_def)
  qed
qed
section \<open>Properties\<close>

text \<open>
  The documents of the properties below are JSON objects \<open>JObj (pre @ (items, JArr elems) # post)\<close>:
  the members \<open>pre\<close>, then the member named by \<^verbatim>\<open>ItemsField\<close> holding the array \<open>elems\<close>,
  then the members \<open>post\<close>; \<open>document spec pre elems post\<close> is the lexeme list of that text.
  \<open>scannable spec pre\<close> says that no member of \<open>pre\<close> is named like the array field
  and that every member of \<open>pre\<close> named in \<^verbatim>\<open>Fields\<close> holds a string;
  \<open>list_all is_JObj elems\<close> that every element of the array is an object.
  \<open>capture_list spec pre\<close> lists, in the order of the text, the destination name and the
  value of every member of \<open>pre\<close> that \<^verbatim>\<open>Fields\<close> names.
\<close>

subsection \<open>What a record carries\<close>




text \<open>
  Claim C2, as the code has it.  For a document with \<open>scannable spec pre\<close> and object
  elements, the map under \<^verbatim>\<open>metadata\<close> of every record sent has exactly the keys
  \<^verbatim>\<open>event_type\<close>, \<^verbatim>\<open>event_source\<close>, \<^verbatim>\<open>ingest_time\<close> and, when at least one field named in
  \<^verbatim>\<open>Fields\<close> stands before the array, \<^verbatim>\<open>config_snapshot\<close>.  The three provenance fields
  have their fixed values.  The value under \<^verbatim>\<open>config_snapshot\<close> is a string map whose keys
  are exactly the destination names of the captured fields met before the array, each
  with the string the document gives it (the last one, when a field is repeated).
\<close>

theorem metadata_content:
  assumes "scannable spec pre" "list_all is_JObj elems"
  shows "\<forall>r \<in> set (sent_items (producer spec now (document spec pre elems post))).
           \<exists>md. fmlookup r ''metadata'' = Some (VMap md)
             \<and> fmdom' md = {''event_type'', ''event_source'', ''ingest_time''}
                            \<union> (if capture_list spec pre = [] then {} else {''config_snapshot''})
             \<and> fmlookup md ''event_type'' = Some (VStr ''config_snapshot'')
             \<and> fmlookup md ''event_source'' = Some (VStr ''something_useful'')
             \<and> fmlookup md ''ingest_time'' = Some (VStr now)
             \<and> (capture_list spec pre \<noteq> [] \<longrightarrow>
                  (\<exists>sm. fmlookup md ''config_snapshot'' = Some (VStrMap sm)
                     \<and> fmdom' sm = fst ` set (capture_list spec pre)
                     \<and> (\<forall>k. fmlookup sm k = map_of (rev (capture_list spec pre)) k)))"
proof -
  let ?md = "with_snapshot (initial_metadata now) (capture_list spec pre)"
  have look: "fmlookup (enrich v ?md) ''metadata'' = Some (VMap ?md)" for v
    using metadata_no_metadata_key [of now "capture_list spec pre"] by (simp add: enrich_lookup)
  have sm: "fmdom' (store (capture_list spec pre) fmempty) = fst ` set (capture_list spec pre)"
    "fmlookup (store (capture_list spec pre) fmempty) k = map_of (rev (capture_list spec pre)) k"
    for k
    by (simp_all add: store_dom store_lookup split: option.splits)
  show ?thesis
    unfolding sent_items_document [OF assms]
    using look sm metadata_dom [of now "capture_list spec pre"]
      metadata_provenance [of now "capture_list spec pre"]
      metadata_snapshot [of "capture_list spec pre" now]
    by auto
qed

theorem metadata_content_witness:
  "scannable main_spec example_pre \<and> list_all is_JObj example_elems
   \<and> (\<exists>md. fmlookup (sent_items (producer main_spec ''T'' (lex example_doc)) ! 0) ''metadata''
              = Some (VMap md)
          \<and> fmdom' md = {''event_type'', ''event_source'', ''ingest_time'', ''config_snapshot''}
          \<and> fmlookup md ''ingest_time'' = Some (VStr ''T'')
          \<and> (\<exists>sm. fmlookup md ''config_snapshot'' = Some (VStrMap sm)
                \<and> fmdom' sm = {''fileVersion'', ''configSnapshotId''}
                \<and> fmlookup sm ''fileVersion'' = Some ''1.0''
                \<and> fmlookup sm ''configSnapshotId'' = Some ''abc''))"
proof -
  let ?items = "sent_items (producer main_spec ''T'' (lex example_doc))"
  have mem: "?items ! 0 \<in> set ?items" by (simp add: example_items)
  from metadata_content [OF example_scannable example_objects, of "''T''" "[]"] mem
  obtain md sm where "fmlookup (?items ! 0) ''metadata'' = Some (VMap md)"
    "fmdom' md = {''event_type'', ''event_source'', ''ingest_time'', ''config_snapshot''}"
    "fmlookup md ''ingest_time'' = Some (VStr ''T'')"
    "fmlookup md ''config_snapshot'' = Some (VStrMap sm)"
    "fmdom' sm = {''fileVersion'', ''configSnapshotId''}"
    "\<forall>k. fmlookup sm k = map_of (rev [(''fileVersion'', ''1.0''), (''configSnapshotId'', ''abc'')]) k"
    unfolding example_document example_capture_list by fastforce
  then show ?thesis
    using example_scannable example_objects by auto
qed

text \<open>
  On the example of the specification the map under \<^verbatim>\<open>metadata\<close> has no key
  \<^verbatim>\<open>fileVersion\<close> and no key \<^verbatim>\<open>configSnapshotId\<close>; it has the key \<^verbatim>\<open>config_snapshot\<close>.
\<close>

theorem metadata_content_counterexample:
  "fmlookup (sent_items (producer main_spec ''T'' (lex example_doc)) ! 0) ''metadata''
     = Some (VMap example_metadata)
   \<and> fmlookup example_metadata ''fileVersion'' = None
   \<and> fmlookup example_metadata ''configSnapshotId'' = None
   \<and> fmlookup example_metadata ''config_snapshot''
       = Some (VStrMap (fmupd ''configSnapshotId'' ''abc'' (fmupd ''fileVersion'' ''1.0'' fmempty)))"
  by code_simp

text \<open>
  Claim C9.  On every input, every record sent holds under \<^verbatim>\<open>metadata\<close> the metadata map
  as the producer leaves it at the end of the run: the map is not changed after the
  first record is sent, so the records of a run all hold the same metadata.
\<close>

theorem shared_metadata:
  "\<forall>r \<in> set (sent_items (producer spec now input)).
     fmlookup r ''metadata'' = Some (VMap (snd (producer_body spec (initial_metadata now) input)))"
proof
  fix r
  assume "r \<in> set (sent_items (producer spec now input))"
  then have "SendItem r \<in> set (fst (producer_body spec (initial_metadata now) input))"
    by (auto simp: producer_def sent_items_append dest: sent_items_mem)
  with producer_body_events [of spec now input]
  show "fmlookup r ''metadata'' = Some (VMap (snd (producer_body spec (initial_metadata now) input)))"
    by (auto simp: list_all_iff item_ok_simps)
qed

theorem shared_metadata_witness:
  "length (sent_items (producer main_spec ''T'' (lex example_doc))) = 2
   \<and> fmlookup (sent_items (producer main_spec ''T'' (lex example_doc)) ! 0) ''metadata''
       = fmlookup (sent_items (producer main_spec ''T'' (lex example_doc)) ! 1) ''metadata''"
proof -
  let ?items = "sent_items (producer main_spec ''T'' (lex example_doc))"
  have "?items ! 0 \<in> set ?items" "?items ! 1 \<in> set ?items"
    by (simp_all add: example_length)
  with shared_metadata [of main_spec "''T''" "lex example_doc"] example_length
  show ?thesis by (metis (no_types, lifting))
qed

subsection \<open>How many records\<close>





text \<open>
  Claim C10.  The status a worker sends once \<^verbatim>\<open>cItems\<close> is closed and drained carries the
  status string \<^verbatim>\<open>"ended normally"\<close>, whatever the writer returned for the items: a
  failed \<^verbatim>\<open>Write\<close> is counted in \<^verbatim>\<open>ErrorCount\<close> and changes nothing else.
\<close>

theorem worker_status_ended_normally:
  "Status (worker_run env writerFactory worker items) = ''ended normally''"
  by (simp add: worker_run_def Let_def)

theorem worker_status_ended_normally_witness:
  "ErrorCount (worker_run \<lparr>sprintf_len = (\<lambda>i. 0), clock = (\<lambda>n. ([], [], 0))\<rparr>
                 (\<lambda>u i. Some ''write failed'') 0 [fmempty, fmempty]) = 2
   \<and> Status (worker_run \<lparr>sprintf_len = (\<lambda>i. 0), clock = (\<lambda>n. ([], [], 0))\<rparr>
                 (\<lambda>u i. Some ''write failed'') 0 [fmempty, fmempty]) = ''ended normally''"
  using worker_status_ended_normally
    [of "\<lparr>sprintf_len = (\<lambda>i. 0), clock = (\<lambda>n. ([], [], 0))\<rparr>"
        "\<lambda>u i. Some ''write failed''" 0 "[fmempty, fmempty]"]
  by (simp add: worker_run_def worker_step_def Let_def)

subsection \<open>Errors\<close>

text \<open>
  Claim C5.  After the members \<open>pre\<close>, a lexeme \<open>l\<close> that is not a string stands where
  the next field name is read (a closing bracket right after the opening brace ends the
  loop before a token is read, so it is left out).  \<^verbatim>\<open>Token\<close> returns an error for it, the
  producer sends that error on \<^verbatim>\<open>cErrors\<close> and returns: no record is sent, and what follows
  \<open>l\<close> in the input is not read.  The other branch for such a token, which prints a
  message and reads on, is taken on no input (\<open>producer_string_names\<close>).
\<close>

theorem non_string_field_name:
  assumes "scannable spec pre" "\<not> is_LStr l" "pre = [] \<longrightarrow> l \<noteq> RBrack \<and> l \<noteq> RBrace"
  shows "producer spec now
           (LBrace # commas (map member (map (map_prod (\<lambda>k. k) lex) pre))
              @ (if pre = [] then [] else [Comma]) @ l # rest)
         = [SendError (Wrap ''DecodeAndSplitItems'' (Json SyntaxError)), CloseErrors, CloseItems]"
proof -
  define s where "s = (if pre = [] then tokenObjectStart else tokenObjectComma)"
  have s: "s = tokenObjectStart \<or> s = tokenObjectComma" by (simp add: s_def)
  have lead: "(if pre = [] then [] else [Comma]) = lead s" by (simp add: lead_def s_def)
  let ?d = "\<lparr>buf = lead s @ l # rest, err = None, tokenState = s, tokenStack = [tokenTopValue]\<rparr>"
  have "scanFields spec md ?d
        = ([SendError (Wrap ''DecodeAndSplitItems'' (Json SyntaxError))], md)" for md
    using assms s by (intro scanFields_not_name [where s = s and l = l and rest = rest])
      (auto simp: s_def)
  then show ?thesis
    using producer_body_prefix [OF assms(1), of now "lead s @ l # rest"]
    unfolding lead commas_flds by (simp add: producer_def s_def)
qed

theorem non_string_field_name_witness:
  "scannable main_spec [] \<and> \<not> is_LStr (LNum ''5'')
   \<and> producer main_spec ''T'' [LBrace, LNum ''5'', Colon, LNum ''1'', RBrace]
       = [SendError (Wrap ''DecodeAndSplitItems'' (Json SyntaxError)), CloseErrors, CloseItems]"
  using non_string_field_name [of main_spec "[]" "LNum ''5''" "''T''" "[Colon, LNum ''1'', RBrace]"]
  by (simp add: scannable_def)

text \<open>
  Claim C6.  A member named in \<^verbatim>\<open>Fields\<close> whose value is not a string, met after the
  members \<open>pre\<close> and so before the array field: the producer sends one error on
  \<^verbatim>\<open>cErrors\<close> and returns without sending a record.  For an array or an object the error
  is the one for a value of type \<^verbatim>\<open>json.Delim\<close>; for a number, a boolean or \<^verbatim>\<open>null\<close> it is
  the error of \<^verbatim>\<open>addMetadata\<close>.
\<close>

theorem captured_field_not_string:
  assumes "scannable spec pre" "fmlookup (Fields spec) k = Some tfv" "k \<noteq> ItemsField spec"
    and "\<not> is_JStr v"
  shows "producer spec now (lex (JObj (pre @ (k, v) # post)))
         = [SendError (field_type_error k v), CloseErrors, CloseItems]"
proof -
  define s where "s = (if pre = [] then tokenObjectStart else tokenObjectComma)"
  have s: "s = tokenObjectStart \<or> s = tokenObjectComma" by (simp add: s_def)
  let ?after = "flds tokenObjectComma post @ [RBrace]"
  let ?tail = "lead s @ LStr k # Colon # lex v @ ?after"
  let ?d = "\<lparr>buf = ?tail, err = None, tokenState = s, tokenStack = [tokenTopValue]\<rparr>"
  have input: "lex (JObj (pre @ (k, v) # post)) = LBrace # flds tokenObjectStart pre @ ?tail"
    by (simp add: lex_JObj_flds flds_append lead_def s_def del: lex.simps)
  have "\<exists>md'. scanFields spec md ?d = ([SendError (field_type_error k v)], md')" for md
    using assms s
    by (intro scanFields_field_not_string [where s = s and tfv = tfv and rest = ?after]) simp_all
  then have "fst (scanFields spec md ?d) = [SendError (field_type_error k v)]" for md
    by (metis fst_conv)
  then show ?thesis
    using producer_body_prefix [OF assms(1), of now ?tail]
    unfolding input by (simp add: producer_def s_def)
qed

theorem captured_field_not_string_witness:
  "scannable main_spec [] \<and> fmlookup (Fields main_spec) ''fileVersion'' = Some []
   \<and> ''fileVersion'' \<noteq> ItemsField main_spec \<and> \<not> is_JStr (JObj [])
   \<and> producer main_spec ''T''
        (lex (JObj ([] @ (''fileVersion'', JObj []) # [(''configurationItems'', JArr example_elems)])))
       = [SendError (DelimValue ''fileVersion'' (Delim CHR ''{'')), CloseErrors, CloseItems]"
proof -
  have h: "scannable main_spec []" "fmlookup (Fields main_spec) ''fileVersion'' = Some []"
    "''fileVersion'' \<noteq> ItemsField main_spec" "\<not> is_JStr (JObj [])"
    by (simp_all add: scannable_def main_spec_def)
  from captured_field_not_string [OF h, of "''T''" "[(''configurationItems'', JArr example_elems)]"] h
  show ?thesis by (simp add: field_type_error_def del: lex.simps)
qed

text \<open>
  Claim C3.  An array with a malformed element between two well-formed ones:
  \<^verbatim>\<open>{"configurationItems":[{"resourceId":"r1"},5,{"resourceId":"r2"}]}\<close>.  The first record
  is sent and the failed \<^verbatim>\<open>Decode\<close> of the second element is sent on \<^verbatim>\<open>cErrors\<close>; the loop
  body then goes on with the nil map and panics, so the third element is never decoded.
\<close>

theorem malformed_element_panics:
  "producer main_spec ''T'' (lex malformed_doc)
   = [SendItem (enrich (item_of (JObj [(''resourceId'', JStr ''r1'')])) (initial_metadata ''T'')),
      SendError (Wrap ''decodeItems'' (Json UnmarshalTypeError)),
      Panic ''assignment to entry in nil map'',
      CloseErrors, CloseItems]"
  by code_simp

subsection \<open>Closing the queue\<close>



end
